theory Spec2Isabelle
  imports Main "HOL-Library.Word"
begin

unbundle bit_operations_syntax

section \<open>The system-call layer of PIOS (kern/syscall.c)\<close>

text \<open>
  A shallow embedding of \<^verbatim>\<open>kern/syscall.c\<close>: the safe user/kernel copy
  (\<^verbatim>\<open>checkva\<close>, \<^verbatim>\<open>usercopy\<close>, \<^verbatim>\<open>sysrecover\<close>, \<^verbatim>\<open>systrap\<close>) and the four
  handlers behind \<^verbatim>\<open>syscall\<close>. Machine integers are 32-bit words, so every
  comparison is unsigned and every subtraction wraps as in C. Each handler ends in a call
  that does not return (\<^verbatim>\<open>proc_ret\<close>, \<^verbatim>\<open>trap_return\<close>, \<^verbatim>\<open>proc_wait\<close>, \<^verbatim>\<open>panic\<close>);
  the model returns that call as an \<open>outcome\<close> together with the kernel state at the
  moment of the call.
\<close>

subsection \<open>Constants and macros of the missing headers\<close>

type_synonym u8 = "8 word"
type_synonym u16 = "16 word"
type_synonym u32 = "32 word"
type_synonym pid = nat

text \<open>
  Modelled from the spec: the trapframe (\<^verbatim>\<open>inc/trap.h\<close> is not among the sources),
  "general registers, instruction pointer, stack pointer, segment selectors, flags, trap
  number, and hardware error code". The general registers are those that
  \<^verbatim>\<open>syscall.c\<close> reads: the command (EAX), the save-area or string pointer (EBX), the
  size (ECX), the child index (EDX), the source (ESI) and the destination (EDI).
\<close>

record pushregs =
  edi :: u32
  esi :: u32
  ebx :: u32
  edx :: u32
  ecx :: u32
  eax :: u32

record trapframe =
  regs :: pushregs
  es :: u16
  ds :: u16
  trapno :: u32
  err :: u32
  eip :: u32
  cs :: u16
  eflags :: u32
  esp :: u32
  ss :: u16

text \<open>
  The headers \<^verbatim>\<open>inc/vm.h\<close>, \<^verbatim>\<open>inc/trap.h\<close>, \<^verbatim>\<open>inc/syscall.h\<close>, \<^verbatim>\<open>inc/mmu.h\<close>,
  \<^verbatim>\<open>kern/cpu.h\<close> and \<^verbatim>\<open>kern/proc.h\<close> are not among the sources, so every constant
  and macro that \<^verbatim>\<open>syscall.c\<close> takes from them is a parameter of the model. The
  layout of \<^verbatim>\<open>procstate\<close> enters through \<open>sizeof_procstate\<close>, \<open>offsetof_fx\<close> and the
  byte offsets of the five fields of the saved trapframe that \<^verbatim>\<open>do_put\<close> rewrites.
  \<open>hw_pgflt a w\<close> is the trapframe that the processor pushes when a kernel access
  (a write when \<open>w\<close>) to the user address \<open>a\<close> faults.
\<close>

record kconsts =
  VM_USERLO :: u32
  VM_USERHI :: u32
  T_PGFLT :: u32
  T_GPFLT :: u32
  SYS_TYPE :: u32
  SYS_CPUTS :: u32
  SYS_PUT :: u32
  SYS_GET :: u32
  SYS_RET :: u32
  SYS_REGS :: u32
  SYS_FPU :: u32
  SYS_MEMOP :: u32
  SYS_COPY :: u32
  SYS_ZERO :: u32
  SYS_MERGE :: u32
  SYS_PERM :: u32
  SYS_RW :: u32
  SYS_SNAP :: u32
  SYS_START :: u32
  FL_CF :: u32
  FL_PF :: u32
  FL_AF :: u32
  FL_ZF :: u32
  FL_SF :: u32
  FL_DF :: u32
  FL_OF :: u32
  FL_IF :: u32
  CPU_GDT_UCODE :: u16
  CPU_GDT_UDATA :: u16
  CPUTS_MAX :: u32
  PTOFF :: "u32 \<Rightarrow> u32"
  PGOFF :: "u32 \<Rightarrow> u32"
  sizeof_procstate :: u32
  offsetof_fx :: u32
  off_ds :: nat
  off_es :: nat
  off_cs :: nat
  off_ss :: nat
  off_eflags :: nat
  hw_pgflt :: "u32 \<Rightarrow> bool \<Rightarrow> trapframe"

text \<open>\<^verbatim>\<open>#define FL_USER (FL_CF|FL_PF|FL_AF|FL_ZF|FL_SF|FL_DF|FL_OF)\<close>\<close>

definition FL_USER :: "kconsts \<Rightarrow> u32" where
  "FL_USER K = FL_CF K OR FL_PF K OR FL_AF K OR FL_ZF K OR FL_SF K OR FL_DF K OR FL_OF K"


subsection \<open>Processes, page maps, the CPU block and the kernel state\<close>

datatype proc_state = PROC_STOP | PROC_READY | PROC_RUN | PROC_WAIT

text \<open>
  Modelled from the spec: an address-space descriptor (\<^verbatim>\<open>kern/pmap.c\<close> and
  \<^verbatim>\<open>inc/mmu.h\<close> are not among the sources). A page map gives, for a user virtual
  address, the frame that backs its page (if any) and its permission bits.
\<close>

record pte =
  frame :: "nat option"
  perm :: u32

type_synonym pmap = "u32 \<Rightarrow> pte"

text \<open>
  Modelled from the spec: a process (\<^verbatim>\<open>kern/proc.h\<close> is not among the sources), with
  "a state in STOP, READY, RUN, WAIT", "a register save-area", the address-space
  descriptors \<open>pdir\<close> and \<open>rpdir\<close>, "a fixed-size array of child slots indexed 0..255",
  "a parent back-reference", "a spin-lock" and "a \<open>runcpu\<close> back-pointer". The register
  save-area \<open>sv\<close> is the raw image of a \<^verbatim>\<open>procstate\<close> (\<open>sizeof_procstate\<close> bytes),
  since the handlers move it with \<^verbatim>\<open>memcpy\<close>; the child table is indexed by a byte.
\<close>

record proc =
  state :: proc_state
  sv :: "u8 list"
  pdir :: pmap
  rpdir :: pmap
  child :: "u8 \<Rightarrow> pid option"
  parent :: "pid option"
  runcpu :: "nat option"
  lock :: bool

text \<open>
  Modelled from the spec: the per-CPU block (\<^verbatim>\<open>kern/cpu.h\<close> is not among the
  sources), which "holds the current process pointer and a single-slot recovery handler:
  an optional function pointer + opaque datum". The only function that \<^verbatim>\<open>syscall.c\<close>
  ever stores in \<^verbatim>\<open>recover\<close> is \<^verbatim>\<open>sysrecover\<close>; the datum, which \<^verbatim>\<open>sysrecover\<close>
  reads as a pointer to the user trapframe, is never stored by \<^verbatim>\<open>syscall.c\<close>.
\<close>

datatype recover_fn = Sysrecover

record cpu =
  cpu_id :: nat
  cpu_proc :: pid
  recover :: "recover_fn option"
  recoverdata :: "trapframe option"

text \<open>
  Ghost events, recorded in the order in which the kernel performs them: each access of
  the kernel to user memory (with the content of the recovery slot at that moment), and
  each call into the page-map module.
\<close>

datatype pmap_op = Pmap_copy | Pmap_remove | Pmap_merge | Pmap_setperm

datatype event =
  Ev_user bool u32 u32 "recover_fn option"
| Ev_pmap pmap_op pid u32 u32

text \<open>
  A kernel buffer that \<^verbatim>\<open>usercopy\<close> is given: the local array of \<^verbatim>\<open>do_cputs\<close> on
  the kernel stack, or the save-area of a process.
\<close>

datatype kva = K_buf | K_sv pid

text \<open>
  The kernel state: the process objects by identity (\<open>proc_null\<close> is the sentinel
  \<^verbatim>\<open>proc_null\<close>), the current CPU, the user memory of the running process as the
  kernel sees it (\<open>None\<close>: the access page-faults), the console sink, the stack buffer,
  and the allocator (\<open>nomem\<close>: exhausted; \<open>nextpid\<close>: the next free process object).
\<close>

record kstate =
  procs :: "pid \<Rightarrow> proc"
  cur :: cpu
  umem :: "u32 \<Rightarrow> u8 option"
  console :: "u8 list"
  kbuf :: "u8 list"
  nomem :: bool
  nextpid :: pid
  events :: "event list"

definition proc_null :: pid where
  "proc_null = 0"

text \<open>How a handler ends: the call that does not return, and its arguments.\<close>

datatype outcome =
  Proc_ret trapframe int
| Trap_return trapframe
| Proc_wait pid pid trapframe
| Panic string
| Regular_trap

type_synonym 'a kres = "(outcome \<times> kstate) + 'a"

definition kload :: "kva \<Rightarrow> kstate \<Rightarrow> u8 list" where
  "kload k s = (case k of K_buf \<Rightarrow> kbuf s | K_sv c \<Rightarrow> sv (procs s c))"

definition kstore :: "kva \<Rightarrow> u8 list \<Rightarrow> kstate \<Rightarrow> kstate" where
  "kstore k bs s =
     (case k of
        K_buf \<Rightarrow> s\<lparr>kbuf := bs\<rparr>
      | K_sv c \<Rightarrow> s\<lparr>procs := (procs s)(c := (procs s c)\<lparr>sv := bs\<rparr>)\<rparr>)"

subsection \<open>Reflecting a trap, and recovering from a fault\<close>

text \<open>
  \<^verbatim>\<open>systrap\<close>: store the trap number and the error code in the user trapframe and
  hand it to \<^verbatim>\<open>proc_ret(utf, 0)\<close>.
\<close>

definition systrap :: "trapframe \<Rightarrow> u32 \<Rightarrow> u32 \<Rightarrow> kstate \<Rightarrow> outcome \<times> kstate" where
  "systrap utf tn er s = (Proc_ret (utf\<lparr>trapno := tn, err := er\<rparr>) 0, s)"

text \<open>
  \<^verbatim>\<open>sysrecover\<close>: assert that the slot holds \<^verbatim>\<open>sysrecover\<close>, clear it, and blame
  the kernel's trap on the user trapframe that \<open>recoverdata\<close> points to. A null
  \<open>recoverdata\<close> makes the store through \<^verbatim>\<open>utf\<close> fault in the kernel with the slot
  already empty.
\<close>

definition sysrecover :: "trapframe \<Rightarrow> trapframe option \<Rightarrow> kstate \<Rightarrow> outcome \<times> kstate" where
  "sysrecover ktf rd s =
     (if recover (cur s) \<noteq> Some Sysrecover
      then (Panic ''assertion failed: c->recover == sysrecover'', s)
      else
        let s1 = s\<lparr>cur := (cur s)\<lparr>recover := None\<rparr>\<rparr> in
        (case rd of
           None \<Rightarrow> (Panic ''unhandled trap in kernel'', s1)
         | Some utf \<Rightarrow> systrap utf (trapno ktf) (err ktf) s1))"

text \<open>
  Modelled from the spec: the page-fault path of the trap dispatcher (\<^verbatim>\<open>kern/trap.c\<close>
  is not among the sources). "If a page fault occurs anywhere inside the move, the trap
  dispatcher consults this handler": with a handler in the slot it calls the handler with
  the kernel's trapframe and the slot's datum; with an empty slot the fault is the
  kernel's own.
\<close>

definition trap_pgflt :: "trapframe \<Rightarrow> kstate \<Rightarrow> outcome \<times> kstate" where
  "trap_pgflt ktf s =
     (case recover (cur s) of
        None \<Rightarrow> (Panic ''unhandled trap in kernel'', s)
      | Some Sysrecover \<Rightarrow> sysrecover ktf (recoverdata (cur s)) s)"

subsection \<open>Validated, fault-recoverable copies\<close>

text \<open>
  \<^verbatim>\<open>checkva\<close>: the block is refused when
  \<^verbatim>\<open>uva < VM_USERLO || uva >= VM_USERHI || size >= VM_USERHI - uva\<close>.
\<close>

definition checkva_bad :: "kconsts \<Rightarrow> u32 \<Rightarrow> u32 \<Rightarrow> bool" where
  "checkva_bad K uva sz \<longleftrightarrow>
     uva < VM_USERLO K \<or> uva \<ge> VM_USERHI K \<or> sz \<ge> VM_USERHI K - uva"

definition checkva :: "kconsts \<Rightarrow> trapframe \<Rightarrow> u32 \<Rightarrow> u32 \<Rightarrow> kstate \<Rightarrow> unit kres" where
  "checkva K utf uva sz s =
     (if checkva_bad K uva sz then Inl (systrap utf (T_PGFLT K) 0 s) else Inr ())"

text \<open>The addresses \<open>uva, uva + 1, \<dots>\<close> of a block of \<open>sz\<close> bytes, in the order of the copy.\<close>

definition uaddrs :: "u32 \<Rightarrow> u32 \<Rightarrow> u32 list" where
  "uaddrs uva sz = map (\<lambda>i. uva + of_nat i) [0 ..< unat sz]"

text \<open>
  Modelled from the spec: \<^verbatim>\<open>memmove\<close> between a kernel buffer and user memory
  (\<^verbatim>\<open>lib/string.c\<close> is not among the sources), which "moves \<open>size\<close> bytes between a
  kernel buffer and a user virtual address" and in which "a page fault" may occur
  "anywhere inside the move": bytes move in ascending order up to the first user address
  whose access faults. The result is the state after the bytes that did move, and the
  faulting address if there is one. The access is recorded with the recovery slot of
  that moment.
\<close>

definition accessible :: "kstate \<Rightarrow> u32 list \<Rightarrow> u32 list" where
  "accessible s as = takeWhile (\<lambda>a. umem s a \<noteq> None) as"

definition memmove_user :: "bool \<Rightarrow> kva \<Rightarrow> u32 \<Rightarrow> u32 \<Rightarrow> kstate \<Rightarrow> kstate \<times> u32 option" where
  "memmove_user copyout k uva sz s =
     (let as = uaddrs uva sz;
          ok = accessible s as;
          s0 = s\<lparr>events := events s @ [Ev_user copyout uva sz (recover (cur s))]\<rparr>;
          s1 = (if copyout
                then s0\<lparr>umem := (umem s0)(ok [\<mapsto>] kload k s0)\<rparr>
                else kstore k (map (\<lambda>a. the (umem s0 a)) ok @ drop (length ok) (kload k s0)) s0)
      in (s1, if length ok < length as then Some (as ! length ok) else None))"

text \<open>
  A kernel access to user memory: when it faults, the processor enters the trap
  dispatcher, which does not come back.
\<close>

definition user_access :: "kconsts \<Rightarrow> bool \<Rightarrow> kva \<Rightarrow> u32 \<Rightarrow> u32 \<Rightarrow> kstate \<Rightarrow> kstate kres" where
  "user_access K copyout k uva sz s =
     (case memmove_user copyout k uva sz s of
        (s1, None) \<Rightarrow> Inr s1
      | (s1, Some a) \<Rightarrow> Inl (trap_pgflt (hw_pgflt K a copyout) s1))"

text \<open>
  \<^verbatim>\<open>usercopy\<close>: validate, assert that the slot is empty, install \<^verbatim>\<open>sysrecover\<close>, move
  the bytes, assert that the slot still holds \<^verbatim>\<open>sysrecover\<close>, clear it.
\<close>

definition usercopy :: "kconsts \<Rightarrow> trapframe \<Rightarrow> bool \<Rightarrow> kva \<Rightarrow> u32 \<Rightarrow> u32 \<Rightarrow> kstate \<Rightarrow> kstate kres" where
  "usercopy K utf copyout k uva sz s =
     (case checkva K utf uva sz s of
        Inl r \<Rightarrow> Inl r
      | Inr _ \<Rightarrow>
          if recover (cur s) \<noteq> None
          then Inl (Panic ''assertion failed: c->recover == NULL'', s)
          else
            (case user_access K copyout k uva sz (s\<lparr>cur := (cur s)\<lparr>recover := Some Sysrecover\<rparr>\<rparr>) of
               Inl r \<Rightarrow> Inl r
             | Inr s1 \<Rightarrow>
                 if recover (cur s1) \<noteq> Some Sysrecover
                 then Inl (Panic ''assertion failed: c->recover == sysrecover'', s1)
                 else Inr (s1\<lparr>cur := (cur s1)\<lparr>recover := None\<rparr>\<rparr>)))"


subsection \<open>The collaborators of the handlers\<close>

text \<open>
  Modelled from the spec: the console sink behind \<^verbatim>\<open>cprintf("%s", buf)\<close>
  (\<^verbatim>\<open>lib/printfmt.c\<close> and the console driver are not among the sources): "a byte sink
  consuming null-terminated strings".
\<close>

definition cprintf_s :: "u8 list \<Rightarrow> kstate \<Rightarrow> kstate" where
  "cprintf_s buf s = s\<lparr>console := console s @ takeWhile (\<lambda>b. b \<noteq> 0) buf\<rparr>"

text \<open>
  Modelled from the spec: the spin-lock of a process (\<^verbatim>\<open>kern/spinlock.c\<close> is not among
  the sources), "guarding state transitions and child-slot mutation": acquiring leaves the
  lock held by this CPU, releasing leaves it free.
\<close>

definition spinlock_acquire :: "pid \<Rightarrow> kstate \<Rightarrow> kstate" where
  "spinlock_acquire p s = s\<lparr>procs := (procs s)(p := (procs s p)\<lparr>lock := True\<rparr>)\<rparr>"

definition spinlock_release :: "pid \<Rightarrow> kstate \<Rightarrow> kstate" where
  "spinlock_release p s = s\<lparr>procs := (procs s)(p := (procs s p)\<lparr>lock := False\<rparr>)\<rparr>"

definition no_map :: pmap where
  "no_map = (\<lambda>_. \<lparr>frame = None, perm = 0\<rparr>)"

text \<open>
  Modelled from the spec: \<^verbatim>\<open>proc_alloc(p, cn)\<close> (\<^verbatim>\<open>kern/proc.c\<close> is not among the
  sources): "allocate a new child parented at the caller", in state STOP ("initial
  STOP"), owned by slot \<open>cn\<close> of the parent; no process when the allocator is exhausted.
\<close>

definition proc_alloc :: "kconsts \<Rightarrow> pid \<Rightarrow> u8 \<Rightarrow> kstate \<Rightarrow> (pid \<times> kstate) option" where
  "proc_alloc K p cn s =
     (if nomem s then None
      else
        let c = nextpid s;
            fresh = \<lparr>state = PROC_STOP, sv = replicate (unat (sizeof_procstate K)) 0,
                     pdir = no_map, rpdir = no_map, child = (\<lambda>_. None), parent = Some p,
                     runcpu = None, lock = False\<rparr>;
            ps = (procs s)(c := fresh)
        in Some (c, s\<lparr>procs := ps(p := (ps p)\<lparr>child := (child (ps p))(cn \<mapsto> c)\<rparr>),
                       nextpid := Suc c\<rparr>))"

text \<open>
  Modelled from the spec: \<^verbatim>\<open>proc_ready(cp)\<close> (\<^verbatim>\<open>kern/proc.c\<close>): "mark the child
  READY (scheduler will run it)".
\<close>

definition proc_ready :: "pid \<Rightarrow> kstate \<Rightarrow> kstate" where
  "proc_ready c s = s\<lparr>procs := (procs s)(c := (procs s c)\<lparr>state := PROC_READY\<rparr>)\<rparr>"

text \<open>
  Modelled from the spec: the page-map operations (\<^verbatim>\<open>kern/pmap.c\<close> is not among the
  sources). \<open>copy(src_pdir, src_va, dst_pdir, dst_va, size)\<close> share-maps the pages of the
  source range at the destination range; \<open>remove(pdir, va, size)\<close> removes pages and
  permissions; \<open>merge(base_pdir, local_pdir, src_va, dst_pdir, dst_va, size)\<close> is the
  three-way merge against \<open>base_pdir\<close>: the destination takes the pages on which the
  source differs from the base and keeps its own elsewhere;
  \<open>setperm(pdir, va, size, rw) \<rightarrow> bool\<close> sets the permission bits and is false on
  allocator exhaustion. An address \<open>va\<close> lies in the range of \<open>sz\<close> bytes at \<open>dva\<close>
  when \<open>va - dva < sz\<close>.
\<close>

definition pmap_copy :: "pmap \<Rightarrow> u32 \<Rightarrow> pmap \<Rightarrow> u32 \<Rightarrow> u32 \<Rightarrow> pmap" where
  "pmap_copy spd sva dpd dva sz =
     (\<lambda>va. if va - dva < sz then spd (sva + (va - dva)) else dpd va)"

definition pmap_remove :: "pmap \<Rightarrow> u32 \<Rightarrow> u32 \<Rightarrow> pmap" where
  "pmap_remove pd dva sz =
     (\<lambda>va. if va - dva < sz then \<lparr>frame = None, perm = 0\<rparr> else pd va)"

definition pmap_merge :: "pmap \<Rightarrow> pmap \<Rightarrow> u32 \<Rightarrow> pmap \<Rightarrow> u32 \<Rightarrow> u32 \<Rightarrow> pmap" where
  "pmap_merge rpd spd sva dpd dva sz =
     (\<lambda>va. if va - dva < sz \<and> spd (sva + (va - dva)) \<noteq> rpd (sva + (va - dva))
           then spd (sva + (va - dva)) else dpd va)"

definition pmap_setperm :: "bool \<Rightarrow> pmap \<Rightarrow> u32 \<Rightarrow> u32 \<Rightarrow> u32 \<Rightarrow> pmap option" where
  "pmap_setperm exhausted pd dva sz pm =
     (if exhausted then None
      else Some (\<lambda>va. if va - dva < sz then (pd va)\<lparr>perm := pm\<rparr> else pd va))"

definition set_pdir :: "pid \<Rightarrow> pmap \<Rightarrow> kstate \<Rightarrow> kstate" where
  "set_pdir c pd s = s\<lparr>procs := (procs s)(c := (procs s c)\<lparr>pdir := pd\<rparr>)\<rparr>"

definition set_rpdir :: "pid \<Rightarrow> pmap \<Rightarrow> kstate \<Rightarrow> kstate" where
  "set_rpdir c pd s = s\<lparr>procs := (procs s)(c := (procs s c)\<lparr>rpdir := pd\<rparr>)\<rparr>"

definition log_pmap :: "pmap_op \<Rightarrow> pid \<Rightarrow> u32 \<Rightarrow> u32 \<Rightarrow> kstate \<Rightarrow> kstate" where
  "log_pmap opn c dva sz s = s\<lparr>events := events s @ [Ev_pmap opn c dva sz]\<rparr>"

subsection \<open>CPUTS\<close>

text \<open>
  \<^verbatim>\<open>do_cputs\<close>: a stack buffer of \<open>CPUTS_MAX + 1\<close> bytes (its first content is
  indeterminate in C and never read; the model starts it at zero), \<open>CPUTS_MAX\<close> bytes
  copied in from the address in EBX, a terminating zero, \<^verbatim>\<open>cprintf\<close>,
  \<^verbatim>\<open>trap_return\<close>.
\<close>

definition do_cputs :: "kconsts \<Rightarrow> trapframe \<Rightarrow> u32 \<Rightarrow> kstate \<Rightarrow> outcome \<times> kstate" where
  "do_cputs K tf cmd s =
     (let s0 = s\<lparr>kbuf := replicate (unat (CPUTS_MAX K) + 1) 0\<rparr> in
      case usercopy K tf False K_buf (ebx (regs tf)) (CPUTS_MAX K) s0 of
        Inl r \<Rightarrow> r
      | Inr s1 \<Rightarrow>
          let s2 = s1\<lparr>kbuf := (kbuf s1)[unat (CPUTS_MAX K) := 0]\<rparr>;
              s3 = cprintf_s (kbuf s2) s2
          in (Trap_return tf, s3))"


subsection \<open>PUT\<close>

text \<open>
  The fields of the saved trapframe inside a save-area image, little-endian as on x86:
  a 16-bit store, a 32-bit load and a 32-bit store at a byte offset.
\<close>

definition st16 :: "nat \<Rightarrow> u16 \<Rightarrow> u8 list \<Rightarrow> u8 list" where
  "st16 off v img = img[off := ucast v, off + 1 := ucast (drop_bit 8 v)]"

definition ld32 :: "nat \<Rightarrow> u8 list \<Rightarrow> u32" where
  "ld32 off img =
     ucast (img ! off) OR push_bit 8 (ucast (img ! (off + 1)))
       OR push_bit 16 (ucast (img ! (off + 2))) OR push_bit 24 (ucast (img ! (off + 3)))"

definition st32 :: "nat \<Rightarrow> u32 \<Rightarrow> u8 list \<Rightarrow> u8 list" where
  "st32 off v img =
     img[off := ucast v, off + 1 := ucast (drop_bit 8 v),
         off + 2 := ucast (drop_bit 16 v), off + 3 := ucast (drop_bit 24 v)]"

text \<open>
  Lines 145 to 150 of \<^verbatim>\<open>do_put\<close>: the child's saved \<^verbatim>\<open>ds\<close>, \<^verbatim>\<open>es\<close> and \<^verbatim>\<open>ss\<close>
  become \<^verbatim>\<open>CPU_GDT_UDATA | 3\<close>, \<^verbatim>\<open>cs\<close> becomes \<^verbatim>\<open>CPU_GDT_UCODE | 3\<close>,
  \<^verbatim>\<open>eflags &= FL_USER\<close>, \<^verbatim>\<open>eflags |= FL_IF\<close>.
\<close>

definition sv_force :: "kconsts \<Rightarrow> u8 list \<Rightarrow> u8 list" where
  "sv_force K img =
     (let i1 = st16 (off_ds K) (CPU_GDT_UDATA K OR 3) img;
          i2 = st16 (off_es K) (CPU_GDT_UDATA K OR 3) i1;
          i3 = st16 (off_cs K) (CPU_GDT_UCODE K OR 3) i2;
          i4 = st16 (off_ss K) (CPU_GDT_UDATA K OR 3) i3;
          i5 = st32 (off_eflags K) (ld32 (off_eflags K) i4 AND FL_USER K) i4
      in st32 (off_eflags K) (ld32 (off_eflags K) i5 OR FL_IF K) i5)"

text \<open>
  \<^verbatim>\<open>int len = offsetof(procstate, fx); if (cmd & SYS_FPU) len = sizeof(procstate);\<close>
\<close>

definition regs_len :: "kconsts \<Rightarrow> u32 \<Rightarrow> u32" where
  "regs_len K cmd = (if cmd AND SYS_FPU K \<noteq> 0 then sizeof_procstate K else offsetof_fx K)"

text \<open>
  The REGS step of \<^verbatim>\<open>do_put\<close>: \<^verbatim>\<open>usercopy\<close> into the child's save-area, then the
  \<^verbatim>\<open>memcpy\<close> from the same user pointer into the same save-area, then the forced
  rewrite.
\<close>

definition put_regs :: "kconsts \<Rightarrow> trapframe \<Rightarrow> u32 \<Rightarrow> pid \<Rightarrow> kstate \<Rightarrow> kstate kres" where
  "put_regs K tf cmd cp s =
     (if cmd AND SYS_REGS K \<noteq> 0 then
        (case usercopy K tf False (K_sv cp) (ebx (regs tf)) (regs_len K cmd) s of
           Inl r \<Rightarrow> Inl r
         | Inr s1 \<Rightarrow>
             (case user_access K False (K_sv cp) (ebx (regs tf)) (regs_len K cmd) s1 of
                Inl r \<Rightarrow> Inl r
              | Inr s2 \<Rightarrow> Inr (kstore (K_sv cp) (sv_force K (kload (K_sv cp) s2)) s2)))
      else Inr s)"

text \<open>
  The region test of the memory operations,
  \<^verbatim>\<open>PTOFF(va) || PTOFF(size) || va < VM_USERLO || va > VM_USERHI || size > VM_USERHI-va\<close>,
  and the same test with \<^verbatim>\<open>PGOFF\<close> for PERM.
\<close>

definition region_bad :: "kconsts \<Rightarrow> u32 \<Rightarrow> u32 \<Rightarrow> bool" where
  "region_bad K va sz \<longleftrightarrow>
     PTOFF K va \<noteq> 0 \<or> PTOFF K sz \<noteq> 0
       \<or> va < VM_USERLO K \<or> va > VM_USERHI K \<or> sz > VM_USERHI K - va"

definition perm_bad :: "kconsts \<Rightarrow> u32 \<Rightarrow> u32 \<Rightarrow> bool" where
  "perm_bad K va sz \<longleftrightarrow>
     PGOFF K va \<noteq> 0 \<or> PGOFF K sz \<noteq> 0
       \<or> va < VM_USERLO K \<or> va > VM_USERHI K \<or> sz > VM_USERHI K - va"

text \<open>
  The \<^verbatim>\<open>switch (cmd & SYS_MEMOP)\<close> of \<^verbatim>\<open>do_put\<close>: nothing for 0; for
  \<^verbatim>\<open>SYS_COPY\<close> the source test, falling through to \<^verbatim>\<open>SYS_ZERO\<close>; there the
  destination test and the inner switch (\<^verbatim>\<open>pmap_remove\<close> on the child for
  \<^verbatim>\<open>SYS_ZERO\<close>, \<^verbatim>\<open>pmap_copy\<close> from the caller to the child for \<^verbatim>\<open>SYS_COPY\<close>);
  \<^verbatim>\<open>systrap(tf, T_GPFLT, 0)\<close> by default.
\<close>

definition put_memop_dst :: "kconsts \<Rightarrow> trapframe \<Rightarrow> u32 \<Rightarrow> pid \<Rightarrow> pid \<Rightarrow> kstate \<Rightarrow> kstate kres" where
  "put_memop_dst K tf cmd p cp s =
     (let sva = esi (regs tf); dva = edi (regs tf); sz = ecx (regs tf) in
      if region_bad K dva sz then Inl (systrap tf (T_GPFLT K) 0 s)
      else if cmd AND SYS_MEMOP K = SYS_ZERO K then
        Inr (set_pdir cp (pmap_remove (pdir (procs s cp)) dva sz)
               (log_pmap Pmap_remove cp dva sz s))
      else if cmd AND SYS_MEMOP K = SYS_COPY K then
        Inr (set_pdir cp (pmap_copy (pdir (procs s p)) sva (pdir (procs s cp)) dva sz)
               (log_pmap Pmap_copy cp dva sz s))
      else Inr s)"

definition put_memop :: "kconsts \<Rightarrow> trapframe \<Rightarrow> u32 \<Rightarrow> pid \<Rightarrow> pid \<Rightarrow> kstate \<Rightarrow> kstate kres" where
  "put_memop K tf cmd p cp s =
     (let sva = esi (regs tf); sz = ecx (regs tf) in
      if cmd AND SYS_MEMOP K = 0 then Inr s
      else if cmd AND SYS_MEMOP K = SYS_COPY K then
        (if region_bad K sva sz then Inl (systrap tf (T_GPFLT K) 0 s)
         else put_memop_dst K tf cmd p cp s)
      else if cmd AND SYS_MEMOP K = SYS_ZERO K then put_memop_dst K tf cmd p cp s
      else Inl (systrap tf (T_GPFLT K) 0 s))"

text \<open>The PERM step: the page-granular test, then \<^verbatim>\<open>pmap_setperm\<close> on the target.\<close>

definition do_perm :: "kconsts \<Rightarrow> trapframe \<Rightarrow> u32 \<Rightarrow> pid \<Rightarrow> string \<Rightarrow> kstate \<Rightarrow> kstate kres" where
  "do_perm K tf cmd c msg s =
     (let dva = edi (regs tf); sz = ecx (regs tf) in
      if cmd AND SYS_PERM K \<noteq> 0 then
        (if perm_bad K dva sz then Inl (systrap tf (T_GPFLT K) 0 s)
         else
           (case pmap_setperm (nomem s) (pdir (procs s c)) dva sz (cmd AND SYS_RW K) of
              None \<Rightarrow> Inl (Panic msg, s)
            | Some pd \<Rightarrow> Inr (set_pdir c pd (log_pmap Pmap_setperm c dva sz s))))
      else Inr s)"

text \<open>
  The SNAP step of \<^verbatim>\<open>do_put\<close>:
  \<^verbatim>\<open>pmap_copy(cp->pdir, VM_USERLO, cp->rpdir, VM_USERLO, VM_USERHI-VM_USERLO)\<close>.
\<close>

definition put_snap :: "kconsts \<Rightarrow> u32 \<Rightarrow> pid \<Rightarrow> kstate \<Rightarrow> kstate" where
  "put_snap K cmd cp s =
     (if cmd AND SYS_SNAP K \<noteq> 0 then
        set_rpdir cp
          (pmap_copy (pdir (procs s cp)) (VM_USERLO K) (rpdir (procs s cp)) (VM_USERLO K)
             (VM_USERHI K - VM_USERLO K))
          (log_pmap Pmap_copy cp (VM_USERLO K) (VM_USERHI K - VM_USERLO K) s)
      else s)"

definition put_start :: "kconsts \<Rightarrow> u32 \<Rightarrow> pid \<Rightarrow> kstate \<Rightarrow> kstate" where
  "put_start K cmd cp s = (if cmd AND SYS_START K \<noteq> 0 then proc_ready cp s else s)"

text \<open>The index of the child: \<^verbatim>\<open>tf->regs.edx & 0xff\<close>.\<close>

definition child_index :: "trapframe \<Rightarrow> u8" where
  "child_index tf = ucast (edx (regs tf) AND 0xff)"

text \<open>
  The head of \<^verbatim>\<open>do_put\<close>: the assertion on the caller, the lock, the child of the
  slot (allocated when the slot is empty, a panic when that fails), \<^verbatim>\<open>proc_wait\<close>
  unless the child is stopped, the release of the lock.
\<close>

definition put_child :: "kconsts \<Rightarrow> trapframe \<Rightarrow> kstate \<Rightarrow> (pid \<times> kstate) kres" where
  "put_child K tf s =
     (let p = cpu_proc (cur s) in
      if \<not> (state (procs s p) = PROC_RUN \<and> runcpu (procs s p) = Some (cpu_id (cur s)))
      then Inl (Panic ''assertion failed: p->state == PROC_RUN && p->runcpu == cpu_cur()'', s)
      else
        let s1 = spinlock_acquire p s in
        (case (case child (procs s1 p) (child_index tf) of
                 Some c \<Rightarrow> Some (c, s1)
               | None \<Rightarrow> proc_alloc K p (child_index tf) s1) of
           None \<Rightarrow> Inl (Panic ''sys_put: no memory for child'', s1)
         | Some (cp, s2) \<Rightarrow>
             if state (procs s2 cp) \<noteq> PROC_STOP then Inl (Proc_wait p cp tf, s2)
             else Inr (cp, spinlock_release p s2)))"

definition do_put :: "kconsts \<Rightarrow> trapframe \<Rightarrow> u32 \<Rightarrow> kstate \<Rightarrow> outcome \<times> kstate" where
  "do_put K tf cmd s =
     (case put_child K tf s of
        Inl r \<Rightarrow> r
      | Inr (cp, s1) \<Rightarrow>
          (case put_regs K tf cmd cp s1 of
             Inl r \<Rightarrow> r
           | Inr s2 \<Rightarrow>
               (case put_memop K tf cmd (cpu_proc (cur s)) cp s2 of
                  Inl r \<Rightarrow> r
                | Inr s3 \<Rightarrow>
                    (case do_perm K tf cmd cp ''pmap_put: no memory to set permissions'' s3 of
                       Inl r \<Rightarrow> r
                     | Inr s4 \<Rightarrow> (Trap_return tf, put_start K cmd cp (put_snap K cmd cp s4))))))"

subsection \<open>GET\<close>

text \<open>
  The head of \<^verbatim>\<open>do_get\<close>: as for PUT, but an empty slot gives \<^verbatim>\<open>&proc_null\<close>.
\<close>

definition get_child :: "trapframe \<Rightarrow> kstate \<Rightarrow> (pid \<times> kstate) kres" where
  "get_child tf s =
     (let p = cpu_proc (cur s) in
      if \<not> (state (procs s p) = PROC_RUN \<and> runcpu (procs s p) = Some (cpu_id (cur s)))
      then Inl (Panic ''assertion failed: p->state == PROC_RUN && p->runcpu == cpu_cur()'', s)
      else
        let s1 = spinlock_acquire p s;
            cp = (case child (procs s1 p) (child_index tf) of Some c \<Rightarrow> c | None \<Rightarrow> proc_null)
        in if state (procs s1 cp) \<noteq> PROC_STOP then Inl (Proc_wait p cp tf, s1)
           else Inr (cp, spinlock_release p s1))"

text \<open>
  The REGS step of \<^verbatim>\<open>do_get\<close>: \<^verbatim>\<open>usercopy\<close> of the child's save-area out to the
  user pointer, then the \<^verbatim>\<open>memcpy\<close> of the same bytes to the same pointer.
\<close>

definition get_regs :: "kconsts \<Rightarrow> trapframe \<Rightarrow> u32 \<Rightarrow> pid \<Rightarrow> kstate \<Rightarrow> kstate kres" where
  "get_regs K tf cmd cp s =
     (if cmd AND SYS_REGS K \<noteq> 0 then
        (case usercopy K tf True (K_sv cp) (ebx (regs tf)) (regs_len K cmd) s of
           Inl r \<Rightarrow> Inl r
         | Inr s1 \<Rightarrow> user_access K True (K_sv cp) (ebx (regs tf)) (regs_len K cmd) s1)
      else Inr s)"

text \<open>
  The \<^verbatim>\<open>switch (cmd & SYS_MEMOP)\<close> of \<^verbatim>\<open>do_get\<close>: \<^verbatim>\<open>SYS_COPY\<close> and
  \<^verbatim>\<open>SYS_MERGE\<close> test the source and fall through to \<^verbatim>\<open>SYS_ZERO\<close>; the inner switch
  works on the caller's page map.
\<close>

definition get_memop_dst :: "kconsts \<Rightarrow> trapframe \<Rightarrow> u32 \<Rightarrow> pid \<Rightarrow> pid \<Rightarrow> kstate \<Rightarrow> kstate kres" where
  "get_memop_dst K tf cmd p cp s =
     (let sva = esi (regs tf); dva = edi (regs tf); sz = ecx (regs tf) in
      if region_bad K dva sz then Inl (systrap tf (T_GPFLT K) 0 s)
      else if cmd AND SYS_MEMOP K = SYS_ZERO K then
        Inr (set_pdir p (pmap_remove (pdir (procs s p)) dva sz)
               (log_pmap Pmap_remove p dva sz s))
      else if cmd AND SYS_MEMOP K = SYS_COPY K then
        Inr (set_pdir p (pmap_copy (pdir (procs s cp)) sva (pdir (procs s p)) dva sz)
               (log_pmap Pmap_copy p dva sz s))
      else if cmd AND SYS_MEMOP K = SYS_MERGE K then
        Inr (set_pdir p
               (pmap_merge (rpdir (procs s cp)) (pdir (procs s cp)) sva (pdir (procs s p)) dva sz)
               (log_pmap Pmap_merge p dva sz s))
      else Inr s)"

definition get_memop :: "kconsts \<Rightarrow> trapframe \<Rightarrow> u32 \<Rightarrow> pid \<Rightarrow> pid \<Rightarrow> kstate \<Rightarrow> kstate kres" where
  "get_memop K tf cmd p cp s =
     (let sva = esi (regs tf); sz = ecx (regs tf) in
      if cmd AND SYS_MEMOP K = 0 then Inr s
      else if cmd AND SYS_MEMOP K = SYS_COPY K \<or> cmd AND SYS_MEMOP K = SYS_MERGE K then
        (if region_bad K sva sz then Inl (systrap tf (T_GPFLT K) 0 s)
         else get_memop_dst K tf cmd p cp s)
      else if cmd AND SYS_MEMOP K = SYS_ZERO K then get_memop_dst K tf cmd p cp s
      else Inl (systrap tf (T_GPFLT K) 0 s))"

definition do_get :: "kconsts \<Rightarrow> trapframe \<Rightarrow> u32 \<Rightarrow> kstate \<Rightarrow> outcome \<times> kstate" where
  "do_get K tf cmd s =
     (case get_child tf s of
        Inl r \<Rightarrow> r
      | Inr (cp, s1) \<Rightarrow>
          (case get_regs K tf cmd cp s1 of
             Inl r \<Rightarrow> r
           | Inr s2 \<Rightarrow>
               (case get_memop K tf cmd (cpu_proc (cur s)) cp s2 of
                  Inl r \<Rightarrow> r
                | Inr s3 \<Rightarrow>
                    (case do_perm K tf cmd (cpu_proc (cur s))
                            ''pmap_get: no memory to set permissions'' s3 of
                       Inl r \<Rightarrow> r
                     | Inr s4 \<Rightarrow>
                         if cmd AND SYS_SNAP K \<noteq> 0 then systrap tf (T_GPFLT K) 0 s4
                         else (Trap_return tf, s4)))))"

subsection \<open>RET and the dispatcher\<close>

definition do_ret :: "trapframe \<Rightarrow> kstate \<Rightarrow> outcome \<times> kstate" where
  "do_ret tf s = (Proc_ret tf 1, s)"

text \<open>
  \<^verbatim>\<open>syscall\<close>: the command is in EAX; an unknown type returns, and the trap is handled
  as a regular one.
\<close>

definition syscall :: "kconsts \<Rightarrow> trapframe \<Rightarrow> kstate \<Rightarrow> outcome \<times> kstate" where
  "syscall K tf s =
     (let cmd = eax (regs tf) in
      if cmd AND SYS_TYPE K = SYS_CPUTS K then do_cputs K tf cmd s
      else if cmd AND SYS_TYPE K = SYS_PUT K then do_put K tf cmd s
      else if cmd AND SYS_TYPE K = SYS_GET K then do_get K tf cmd s
      else if cmd AND SYS_TYPE K = SYS_RET K then do_ret tf s
      else (Regular_trap, s))"


subsection \<open>The words of the specification, and an instance to run the model on\<close>

text \<open>
  The specification's test for a user block: \<open>USERLO \<le> uva\<close> and
  \<open>uva + size \<le> USERHI\<close>, the sum taken in the integers.
\<close>

definition va_valid :: "kconsts \<Rightarrow> u32 \<Rightarrow> u32 \<Rightarrow> bool" where
  "va_valid K uva sz \<longleftrightarrow> VM_USERLO K \<le> uva \<and> unat uva + unat sz \<le> unat (VM_USERHI K)"

text \<open>
  An instance of the parameters: the user range is \<open>[0x40000000, 0xF0000000)\<close>, a page
  table spans 4 MB and a page 4 KB, a save-area has 96 bytes of which the last 16 are the
  FPU block.
\<close>

definition ex_fault :: "u32 \<Rightarrow> bool \<Rightarrow> trapframe" where
  "ex_fault a w =
     \<lparr>regs = \<lparr>edi = 0, esi = 0, ebx = 0, edx = 0, ecx = 0, eax = 0\<rparr>,
      es = 0x10, ds = 0x10, trapno = 14, err = (if w then 2 else 0), eip = 0x100000,
      cs = 0x08, eflags = 0, esp = 0, ss = 0x10\<rparr>"

definition ex_consts :: kconsts where
  "ex_consts =
     \<lparr>VM_USERLO = 0x40000000, VM_USERHI = 0xF0000000, T_PGFLT = 14, T_GPFLT = 13,
      SYS_TYPE = 0xF, SYS_CPUTS = 0, SYS_PUT = 1, SYS_GET = 2, SYS_RET = 3,
      SYS_REGS = 0x1000, SYS_FPU = 0x2000, SYS_MEMOP = 0x30000, SYS_COPY = 0x20000,
      SYS_ZERO = 0x10000, SYS_MERGE = 0x30000, SYS_PERM = 0x100, SYS_RW = 0x600,
      SYS_SNAP = 0x40000, SYS_START = 0x10,
      FL_CF = 0x1, FL_PF = 0x4, FL_AF = 0x10, FL_ZF = 0x40, FL_SF = 0x80, FL_DF = 0x400,
      FL_OF = 0x800, FL_IF = 0x200,
      CPU_GDT_UCODE = 0x18, CPU_GDT_UDATA = 0x20, CPUTS_MAX = 8,
      PTOFF = (\<lambda>va. va AND 0x3FFFFF), PGOFF = (\<lambda>va. va AND 0xFFF),
      sizeof_procstate = 96, offsetof_fx = 80,
      off_ds = 44, off_es = 40, off_cs = 60, off_ss = 72, off_eflags = 64,
      hw_pgflt = ex_fault\<rparr>"

text \<open>
  A kernel state: process 1 runs on CPU 0 and owns the stopped child 2 in slot 7, whose
  page map has one page at \<open>0x40000000\<close> and whose reference page map is empty; in the
  memory of process 1 the page at \<open>0x40000000\<close> is accessible and holds \<open>hello\<close>, a zero, and then the low byte
  of each address; the recovery slot is empty.
\<close>

definition ex_proc :: proc where
  "ex_proc =
     \<lparr>state = PROC_STOP, sv = replicate 96 0, pdir = no_map, rpdir = no_map,
      child = (\<lambda>_. None), parent = None, runcpu = None, lock = False\<rparr>"

definition ex_umem :: "u32 \<Rightarrow> u8 option" where
  "ex_umem a =
     (if a - 0x40000000 < 0x1000
      then Some (if a - 0x40000000 < 6 then [104, 101, 108, 108, 111, 0] ! unat (a - 0x40000000)
                 else ucast a)
      else None)"

definition ex_pdir :: pmap where
  "ex_pdir va =
     (if va - 0x40000000 < 0x1000 then \<lparr>frame = Some 5, perm = 0x600\<rparr> else no_map va)"

definition ex_state :: kstate where
  "ex_state =
     \<lparr>procs = (\<lambda>_. ex_proc)
        (1 := ex_proc\<lparr>state := PROC_RUN, runcpu := Some 0, child := (\<lambda>_. None)(7 \<mapsto> 2)\<rparr>,
         2 := ex_proc\<lparr>pdir := ex_pdir, parent := Some 1\<rparr>),
      cur = \<lparr>cpu_id = 0, cpu_proc = 1, recover = None, recoverdata = None\<rparr>,
      umem = ex_umem, console = [], kbuf = [], nomem = False, nextpid = 3, events = []\<rparr>"

definition ex_tf :: "u32 \<Rightarrow> u32 \<Rightarrow> u32 \<Rightarrow> u32 \<Rightarrow> trapframe" where
  "ex_tf cmd ptr cn sz =
     \<lparr>regs = \<lparr>edi = 0x40000000, esi = 0x40000000, ebx = ptr, edx = cn, ecx = sz,
               eax = cmd\<rparr>,
      es = 0x23, ds = 0x23, trapno = 48, err = 0, eip = 0x40000100, cs = 0x1B,
      eflags = 0x202, esp = 0xEFFFFF00, ss = 0x23\<rparr>"

text \<open>
  The whole block of \<open>sz\<close> bytes at \<open>uva\<close> is accessible; and the bytes it holds.
\<close>

definition all_accessible :: "kstate \<Rightarrow> u32 \<Rightarrow> u32 \<Rightarrow> bool" where
  "all_accessible s uva sz \<longleftrightarrow> list_all (\<lambda>a. umem s a \<noteq> None) (uaddrs uva sz)"

definition ubytes :: "kstate \<Rightarrow> u32 \<Rightarrow> u32 \<Rightarrow> u8 list" where
  "ubytes s uva sz = map (\<lambda>a. the (umem s a)) (uaddrs uva sz)"

text \<open>
  The state after a completed move of \<open>sz\<close> bytes between the kernel buffer \<open>k\<close> and the
  user block at \<open>uva\<close>, recorded with the slot content \<open>g\<close>.
\<close>

definition moved :: "bool \<Rightarrow> kva \<Rightarrow> u32 \<Rightarrow> u32 \<Rightarrow> recover_fn option \<Rightarrow> kstate \<Rightarrow> kstate" where
  "moved copyout k uva sz g s =
     (if copyout
      then s\<lparr>events := events s @ [Ev_user True uva sz g],
             umem := (umem s)(uaddrs uva sz [\<mapsto>] kload k s)\<rparr>
      else kstore k (ubytes s uva sz @ drop (unat sz) (kload k s))
             (s\<lparr>events := events s @ [Ev_user False uva sz g]\<rparr>))"

text \<open>
  What a copy between kernel and user memory leaves alone: the console, the allocator,
  the identity of the CPU and of its process, and every process but for its save-area;
  the events it adds are accesses to user memory.
\<close>

definition ctl :: "proc \<Rightarrow> proc" where
  "ctl pr = pr\<lparr>sv := []\<rparr>"

definition is_user_event :: "event \<Rightarrow> bool" where
  "is_user_event e = (case e of Ev_user _ _ _ _ \<Rightarrow> True | Ev_pmap _ _ _ _ \<Rightarrow> False)"

definition copy_frame :: "kstate \<Rightarrow> kstate \<Rightarrow> bool" where
  "copy_frame s s' \<longleftrightarrow>
     console s' = console s \<and> nomem s' = nomem s \<and> nextpid s' = nextpid s
     \<and> cpu_id (cur s') = cpu_id (cur s) \<and> cpu_proc (cur s') = cpu_proc (cur s)
     \<and> (\<forall>q. ctl (procs s' q) = ctl (procs s q))
     \<and> (\<exists>es. events s' = events s @ es \<and> list_all is_user_event es)"

text \<open>The outcomes that hand control back to the caller of the system call.\<close>

definition returns_normally :: "outcome \<Rightarrow> bool" where
  "returns_normally out = (case out of Trap_return _ \<Rightarrow> True | _ \<Rightarrow> False)"

text \<open>
  The state after a completed REGS step: of PUT (two moves into the child's save-area,
  then the forced rewrite) and of GET (two moves out of it).
\<close>

definition put_regs_done :: "kconsts \<Rightarrow> trapframe \<Rightarrow> u32 \<Rightarrow> pid \<Rightarrow> kstate \<Rightarrow> kstate" where
  "put_regs_done K tf cmd cp s =
     (let a = ebx (regs tf); n = regs_len K cmd;
          s2 = moved False (K_sv cp) a n None (moved False (K_sv cp) a n (Some Sysrecover) s)
      in kstore (K_sv cp) (sv_force K (kload (K_sv cp) s2)) s2)"

definition get_regs_done :: "kconsts \<Rightarrow> trapframe \<Rightarrow> u32 \<Rightarrow> pid \<Rightarrow> kstate \<Rightarrow> kstate" where
  "get_regs_done K tf cmd cp s =
     (let a = ebx (regs tf); n = regs_len K cmd
      in moved True (K_sv cp) a n None (moved True (K_sv cp) a n (Some Sysrecover) s))"

text \<open>
  The specification's test for the region of a memory operation: address and size
  aligned to a page table, \<open>USERLO \<le> va\<close>, and \<open>va + size \<le> USERHI\<close> in the integers.
\<close>

definition region_valid :: "kconsts \<Rightarrow> u32 \<Rightarrow> u32 \<Rightarrow> bool" where
  "region_valid K va sz \<longleftrightarrow>
     PTOFF K va = 0 \<and> PTOFF K sz = 0 \<and> VM_USERLO K \<le> va
     \<and> unat va + unat sz \<le> unat (VM_USERHI K)"

text \<open>
  A validation failure of the memory operation: on PUT the source region of a COPY or
  the destination region is not valid; on GET the source region of a COPY or MERGE or
  the destination region is not valid.
\<close>

definition put_invalid :: "kconsts \<Rightarrow> trapframe \<Rightarrow> u32 \<Rightarrow> bool" where
  "put_invalid K tf cmd \<longleftrightarrow>
     (cmd AND SYS_MEMOP K = SYS_COPY K
        \<and> \<not> region_valid K (esi (regs tf)) (ecx (regs tf)))
     \<or> \<not> region_valid K (edi (regs tf)) (ecx (regs tf))"

definition get_invalid :: "kconsts \<Rightarrow> trapframe \<Rightarrow> u32 \<Rightarrow> bool" where
  "get_invalid K tf cmd \<longleftrightarrow>
     ((cmd AND SYS_MEMOP K = SYS_COPY K \<or> cmd AND SYS_MEMOP K = SYS_MERGE K)
        \<and> \<not> region_valid K (esi (regs tf)) (ecx (regs tf)))
     \<or> \<not> region_valid K (edi (regs tf)) (ecx (regs tf))"

text \<open>
  The state in which a handler arrives at its \<^verbatim>\<open>switch (cmd & SYS_MEMOP)\<close>, if it
  does: the head and the REGS step have completed.
\<close>

definition put_reaches_memop :: "kconsts \<Rightarrow> trapframe \<Rightarrow> u32 \<Rightarrow> kstate \<Rightarrow> kstate option" where
  "put_reaches_memop K tf cmd s =
     (case put_child K tf s of
        Inl _ \<Rightarrow> None
      | Inr (cp, s1) \<Rightarrow>
          (case put_regs K tf cmd cp s1 of Inl _ \<Rightarrow> None | Inr s2 \<Rightarrow> Some s2))"

definition get_reaches_memop :: "kconsts \<Rightarrow> trapframe \<Rightarrow> u32 \<Rightarrow> kstate \<Rightarrow> kstate option" where
  "get_reaches_memop K tf cmd s =
     (case get_child tf s of
        Inl _ \<Rightarrow> None
      | Inr (cp, s1) \<Rightarrow>
          (case get_regs K tf cmd cp s1 of Inl _ \<Rightarrow> None | Inr s2 \<Rightarrow> Some s2))"

text \<open>
  The state in which \<^verbatim>\<open>do_get\<close> arrives at its test of the SNAP bit, if it does: the
  head and the REGS, MEMOP and PERM steps have completed.
\<close>

definition get_reaches_snap :: "kconsts \<Rightarrow> trapframe \<Rightarrow> u32 \<Rightarrow> kstate \<Rightarrow> kstate option" where
  "get_reaches_snap K tf cmd s =
     (case get_child tf s of
        Inl _ \<Rightarrow> None
      | Inr (cp, s1) \<Rightarrow>
          (case get_regs K tf cmd cp s1 of
             Inl _ \<Rightarrow> None
           | Inr s2 \<Rightarrow>
               (case get_memop K tf cmd (cpu_proc (cur s)) cp s2 of
                  Inl _ \<Rightarrow> None
                | Inr s3 \<Rightarrow>
                    (case do_perm K tf cmd (cpu_proc (cur s))
                            ''pmap_get: no memory to set permissions'' s3 of
                       Inl _ \<Rightarrow> None
                     | Inr s4 \<Rightarrow> Some s4))))"

text \<open>
  The child and the state with which \<^verbatim>\<open>do_put\<close> arrives at its test of the SNAP bit,
  if it does: the head and the REGS, MEMOP and PERM steps have completed.
\<close>

definition put_reaches_snap :: "kconsts \<Rightarrow> trapframe \<Rightarrow> u32 \<Rightarrow> kstate \<Rightarrow> (pid \<times> kstate) option" where
  "put_reaches_snap K tf cmd s =
     (case put_child K tf s of
        Inl _ \<Rightarrow> None
      | Inr (cp, s1) \<Rightarrow>
          (case put_regs K tf cmd cp s1 of
             Inl _ \<Rightarrow> None
           | Inr s2 \<Rightarrow>
               (case put_memop K tf cmd (cpu_proc (cur s)) cp s2 of
                  Inl _ \<Rightarrow> None
                | Inr s3 \<Rightarrow>
                    (case do_perm K tf cmd cp ''pmap_put: no memory to set permissions'' s3 of
                       Inl _ \<Rightarrow> None
                     | Inr s4 \<Rightarrow> Some (cp, s4)))))"

text \<open>
  No page map of a process object that exists in \<open>s\<close> differs in \<open>s'\<close> (the allocator
  hands out the object \<open>nextpid s\<close> next), and no call into the page-map module lies
  between the two states.
\<close>

definition maps_untouched :: "kstate \<Rightarrow> kstate \<Rightarrow> bool" where
  "maps_untouched s s' \<longleftrightarrow>
     (\<forall>q. q \<noteq> nextpid s \<longrightarrow>
            pdir (procs s' q) = pdir (procs s q) \<and> rpdir (procs s' q) = rpdir (procs s q))
     \<and> (\<exists>es. events s' = events s @ es \<and> list_all is_user_event es)"

text \<open>
  A step that works on the page map of the process \<open>c\<close> and on nothing else.
\<close>

definition pdir_step :: "pid \<Rightarrow> kstate \<Rightarrow> kstate \<Rightarrow> bool" where
  "pdir_step c s s' \<longleftrightarrow>
     cur s' = cur s \<and> umem s' = umem s \<and> console s' = console s \<and> kbuf s' = kbuf s
     \<and> nomem s' = nomem s \<and> nextpid s' = nextpid s
     \<and> (\<forall>q. q \<noteq> c \<longrightarrow> procs s' q = procs s q)
     \<and> (procs s' c)\<lparr>pdir := pdir (procs s c)\<rparr> = procs s c
     \<and> (\<exists>es. events s' = events s @ es)"

text \<open>
  Between \<open>s\<close> and \<open>s'\<close> no process object has changed but the caller \<open>p\<close>, and of the
  caller only the page map and the lock; nothing was allocated.
\<close>

definition caller_only :: "pid \<Rightarrow> kstate \<Rightarrow> kstate \<Rightarrow> bool" where
  "caller_only p s s' \<longleftrightarrow>
     nextpid s' = nextpid s \<and> nomem s' = nomem s
     \<and> (\<forall>q. q \<noteq> p \<longrightarrow> procs s' q = procs s q)
     \<and> (procs s' p)\<lparr>pdir := pdir (procs s p), lock := lock (procs s p)\<rparr> = procs s p"

text \<open>
  The sentinel as the specification has it: \<^verbatim>\<open>proc_null\<close> is in state STOP; it is no
  one's child and is never handed out by the allocator.
\<close>

definition sentinel_inv :: "kstate \<Rightarrow> bool" where
  "sentinel_inv s \<longleftrightarrow>
     state (procs s proc_null) = PROC_STOP
     \<and> (\<forall>q cn. child (procs s q) cn \<noteq> Some proc_null)
     \<and> nextpid s \<noteq> proc_null"

text \<open>
  Reading a 16-bit field of a save-area image; the byte offsets that the forced rewrite
  of PUT stores to; and a layout in which these five fields do not overlap and lie in
  the integer part of the save-area, before the FPU block.
\<close>

definition ld16 :: "nat \<Rightarrow> u8 list \<Rightarrow> u16" where
  "ld16 off img = ucast (img ! off) OR push_bit 8 (ucast (img ! (off + 1)))"

definition rewritten :: "kconsts \<Rightarrow> nat list" where
  "rewritten K =
     [off_ds K, off_ds K + 1, off_es K, off_es K + 1, off_cs K, off_cs K + 1,
      off_ss K, off_ss K + 1,
      off_eflags K, off_eflags K + 1, off_eflags K + 2, off_eflags K + 3]"

definition layout_ok :: "kconsts \<Rightarrow> bool" where
  "layout_ok K \<longleftrightarrow>
     distinct (rewritten K) \<and> list_all (\<lambda>i. i < unat (offsetof_fx K)) (rewritten K)
     \<and> offsetof_fx K \<le> sizeof_procstate K"

text \<open>Every save-area has the size of a \<^verbatim>\<open>procstate\<close>.\<close>

definition sv_sized :: "kconsts \<Rightarrow> kstate \<Rightarrow> bool" where
  "sv_sized K s \<longleftrightarrow> (\<forall>q. length (sv (procs s q)) = unat (sizeof_procstate K))"

text \<open>A state with the user trapframe of the call as the datum of the recovery slot.\<close>

definition ex_state_rd :: "trapframe \<Rightarrow> kstate" where
  "ex_state_rd tf = ex_state\<lparr>cur := (cur ex_state)\<lparr>recoverdata := Some tf\<rparr>\<rparr>"

text \<open>
  That state with the string \<open>hi\<close> and its terminating zero in the last three bytes of
  the accessible page; the byte after the zero is not accessible.
\<close>

definition ex_state_tail :: "trapframe \<Rightarrow> kstate" where
  "ex_state_tail tf =
     (ex_state_rd tf)\<lparr>umem := ex_umem(0x40000FFD \<mapsto> 104, 0x40000FFE \<mapsto> 105, 0x40000FFF \<mapsto> 0)\<rparr>"

text \<open>
  The state \<open>ex_state\<close> after process 1 has put the 80 bytes at \<open>0x40000000\<close> into the
  save-area of its child in slot 7.
\<close>

definition ex_state_put :: kstate where
  "ex_state_put = snd (do_put ex_consts (ex_tf 0x1001 0x40000000 7 0) 0x1001 ex_state)"

section \<open>Properties\<close>

subsection \<open>The range test of \<^verbatim>\<open>checkva\<close>\<close>

lemma checkva_bad_iff:
  "checkva_bad K uva sz \<longleftrightarrow>
     \<not> (VM_USERLO K \<le> uva \<and> unat uva + unat sz < unat (VM_USERHI K))"
proof (cases "uva < VM_USERHI K")
  case True
  then have "unat (VM_USERHI K - uva) = unat (VM_USERHI K) - unat uva"
    by (simp add: unat_sub word_less_nat_alt word_le_nat_alt)
  with True show ?thesis
    by (auto simp: checkva_bad_def word_le_nat_alt word_less_nat_alt)
next
  case False
  then show ?thesis
    by (auto simp: checkva_bad_def word_le_nat_alt word_less_nat_alt)
qed

lemma usercopy_refused:
  "checkva_bad K uva sz \<Longrightarrow>
     usercopy K utf copyout k uva sz s = Inl (Proc_ret (utf\<lparr>trapno := T_PGFLT K, err := 0\<rparr>) 0, s)"
  by (simp add: usercopy_def checkva_def systrap_def)

lemma checkva_good_valid: "\<not> checkva_bad K uva sz \<Longrightarrow> va_valid K uva sz"
  by (simp add: checkva_bad_iff va_valid_def)

text \<open>
  C1. The specification accepts a block when \<open>USERLO \<le> uva\<close> and
  \<open>uva + size \<le> USERHI\<close>. \<^verbatim>\<open>checkva\<close> refuses with \<^verbatim>\<open>size >= VM_USERHI - uva\<close>, so a
  block that ends exactly at \<open>USERHI\<close> is valid for the specification and still refused
  by the code: \<^verbatim>\<open>usercopy\<close> reflects \<open>T_PGFLT\<close> and leaves the state as it was. (A
  block is accepted by the code exactly when \<open>USERLO \<le> uva\<close> and
  \<open>uva + size < USERHI\<close>, see \<open>checkva_bad_iff\<close>; every refused block is reflected
  with the state untouched, see \<open>usercopy_refused\<close>.)
\<close>

theorem usercopy_refuses_block_ending_at_userhi:
  assumes "VM_USERLO K \<le> uva" and "unat uva + unat sz = unat (VM_USERHI K)"
  shows "va_valid K uva sz \<and>
         usercopy K utf copyout k uva sz s =
           Inl (Proc_ret (utf\<lparr>trapno := T_PGFLT K, err := 0\<rparr>) 0, s)"
proof -
  from assms have "checkva_bad K uva sz"
    by (simp add: checkva_bad_iff)
  then show ?thesis
    using assms by (simp add: usercopy_refused va_valid_def)
qed

theorem usercopy_refuses_block_ending_at_userhi_witness:
  "va_valid ex_consts 0xEFFFFFFC 4 \<and>
   usercopy ex_consts (ex_tf 0 0xEFFFFFFC 0 0) False K_buf 0xEFFFFFFC 4 ex_state =
     Inl (Proc_ret ((ex_tf 0 0xEFFFFFFC 0 0)\<lparr>trapno := 14, err := 0\<rparr>) 0, ex_state)"
  using usercopy_refuses_block_ending_at_userhi
          [of ex_consts "0xEFFFFFFC" 4 "ex_tf 0 0xEFFFFFFC 0 0" False K_buf ex_state]
  by (simp add: ex_consts_def)

subsection \<open>The recovery slot\<close>

lemma cur_memmove_user: "cur (fst (memmove_user copyout k uva sz s)) = cur s"
  by (simp add: memmove_user_def Let_def kstore_def split: kva.splits)

lemma memmove_user_cur: "memmove_user copyout k uva sz s = (b, x) \<Longrightarrow> cur b = cur s"
  using cur_memmove_user [of copyout k uva sz s] by simp

text \<open>
  C2. Every way out of \<^verbatim>\<open>usercopy\<close>. A normal return happens only from an empty slot
  and leaves the slot empty. A call that does not return either never installed the
  handler (the block was refused by \<^verbatim>\<open>checkva\<close>; or the slot was not empty, and the
  assertion before the installation stopped the kernel with the state as it was), or
  it faulted inside the move and unwound through \<^verbatim>\<open>sysrecover\<close>, which emptied the
  slot. The slot holds at most one handler by its type.
\<close>

theorem usercopy_leaves_recover_empty:
  "case usercopy K utf copyout k uva sz s of
     Inr s' \<Rightarrow> recover (cur s) = None \<and> recover (cur s') = None
   | Inl (out, s') \<Rightarrow>
       if checkva_bad K uva sz then (out, s') = systrap utf (T_PGFLT K) 0 s
       else if recover (cur s) \<noteq> None
         then out = Panic ''assertion failed: c->recover == NULL'' \<and> s' = s
       else recover (cur s') = None"
  by (auto simp: usercopy_def checkva_def user_access_def trap_pgflt_def sysrecover_def
        systrap_def Let_def
      dest!: memmove_user_cur
      split: sum.splits if_splits prod.splits option.splits recover_fn.splits)


theorem usercopy_leaves_recover_empty_witness:
  "recover (cur (case usercopy ex_consts (ex_tf 0 0x40000FFC 0 0) False K_buf 0x40000FFC 8
                        (ex_state_rd (ex_tf 0 0x40000FFC 0 0)) of
                   Inl (out, s') \<Rightarrow> s' | Inr s' \<Rightarrow> s')) = None"
  using usercopy_leaves_recover_empty
          [where K = ex_consts and utf = "ex_tf 0 0x40000FFC 0 0" and copyout = False
             and k = K_buf and uva = "0x40000FFC" and sz = 8
             and s = "ex_state_rd (ex_tf 0 0x40000FFC 0 0)"]
  by (simp add: checkva_bad_def ex_consts_def ex_state_def ex_state_rd_def
        split: sum.splits prod.splits)


subsection \<open>Copies that complete, and copies that do not\<close>

lemma length_uaddrs [simp]: "length (uaddrs uva sz) = unat sz"
  by (simp add: uaddrs_def)

lemma length_ubytes [simp]: "length (ubytes s uva sz) = unat sz"
  by (simp add: ubytes_def)

lemma accessible_all:
  "all_accessible s uva sz \<Longrightarrow> accessible s (uaddrs uva sz) = uaddrs uva sz"
  by (simp add: all_accessible_def accessible_def list_all_iff)

lemma accessible_short:
  assumes "\<not> all_accessible s uva sz"
  shows "length (accessible s (uaddrs uva sz)) < unat sz"
proof -
  have "length (accessible s (uaddrs uva sz)) \<noteq> length (uaddrs uva sz)"
  proof
    assume "length (accessible s (uaddrs uva sz)) = length (uaddrs uva sz)"
    then have "take (length (accessible s (uaddrs uva sz))) (uaddrs uva sz) = uaddrs uva sz"
      by simp
    then have "takeWhile (\<lambda>a. umem s a \<noteq> None) (uaddrs uva sz) = uaddrs uva sz"
      by (simp only: accessible_def takeWhile_eq_take [symmetric])
    then have "all_accessible s uva sz"
      by (simp add: all_accessible_def list_all_iff takeWhile_eq_all_conv)
    with assms show False by simp
  qed
  moreover have "length (accessible s (uaddrs uva sz)) \<le> length (uaddrs uva sz)"
    unfolding accessible_def by (rule length_takeWhile_le)
  ultimately show ?thesis by simp
qed

lemma accessible_events [simp]: "accessible (s\<lparr>events := e\<rparr>) as = accessible s as"
  by (simp add: accessible_def)

lemma kload_events [simp]: "kload k (s\<lparr>events := e\<rparr>) = kload k s"
  by (simp add: kload_def split: kva.splits)

lemma memmove_user_ok:
  "all_accessible s uva sz \<Longrightarrow>
   memmove_user copyout k uva sz s = (moved copyout k uva sz (recover (cur s)) s, None)"
  by (simp add: memmove_user_def moved_def Let_def accessible_all ubytes_def)

lemma memmove_user_fault:
  "\<not> all_accessible s uva sz \<Longrightarrow> \<exists>a. snd (memmove_user copyout k uva sz s) = Some a"
  by (simp add: memmove_user_def Let_def accessible_short)

lemma copy_frame_refl [simp]: "copy_frame s s"
  by (simp add: copy_frame_def)

lemma copy_frame_trans: "copy_frame s t \<Longrightarrow> copy_frame t u \<Longrightarrow> copy_frame s u"
  by (auto simp: copy_frame_def)

lemma memmove_user_frame: "copy_frame s (fst (memmove_user copyout k uva sz s))"
  by (simp add: memmove_user_def Let_def copy_frame_def kstore_def ctl_def is_user_event_def
      split: kva.splits)

lemma copy_frame_slot [simp]: "copy_frame s (t\<lparr>cur := (cur t)\<lparr>recover := r\<rparr>\<rparr>) = copy_frame s t"
  by (simp add: copy_frame_def)

lemma copy_frame_slot' [simp]: "copy_frame (t\<lparr>cur := (cur t)\<lparr>recover := r\<rparr>\<rparr>) s = copy_frame t s"
  by (simp add: copy_frame_def)

lemma trap_pgflt_frame:
  "trap_pgflt ktf s = (out, s') \<Longrightarrow> copy_frame s s' \<and> \<not> returns_normally out"
  by (auto simp: trap_pgflt_def sysrecover_def systrap_def returns_normally_def Let_def
      split: option.splits recover_fn.splits if_splits)

lemma user_access_ok:
  "all_accessible s uva sz \<Longrightarrow>
   user_access K copyout k uva sz s = Inr (moved copyout k uva sz (recover (cur s)) s)"
  by (simp add: user_access_def memmove_user_ok)

lemma user_access_Inr:
  "user_access K copyout k uva sz s = Inr s' \<longleftrightarrow>
     all_accessible s uva sz \<and> s' = moved copyout k uva sz (recover (cur s)) s"
proof (cases "all_accessible s uva sz")
  case True
  then show ?thesis by (auto simp: user_access_ok)
next
  case False
  from memmove_user_fault [OF this, of copyout k] show ?thesis
    using False by (auto simp: user_access_def split: prod.splits)
qed

lemma user_access_Inl:
  assumes "user_access K copyout k uva sz s = Inl (out, s')"
  shows "copy_frame s s' \<and> \<not> returns_normally out \<and> \<not> all_accessible s uva sz"
proof -
  from assms obtain s1 a where m: "memmove_user copyout k uva sz s = (s1, Some a)"
    and t: "trap_pgflt (hw_pgflt K a copyout) s1 = (out, s')"
    by (auto simp: user_access_def split: prod.splits option.splits)
  from m memmove_user_frame [of s copyout k uva sz] have "copy_frame s s1" by simp
  moreover from t have "copy_frame s1 s'" "\<not> returns_normally out"
    by (auto dest: trap_pgflt_frame)
  moreover from m have "\<not> all_accessible s uva sz"
    using memmove_user_ok [of s uva sz copyout k] by auto
  ultimately show ?thesis by (auto intro: copy_frame_trans)
qed

lemma moved_frame: "copy_frame s (moved copyout k uva sz g s)"
  by (simp add: moved_def copy_frame_def kstore_def ctl_def is_user_event_def split: kva.splits)


lemma all_accessible_cur [simp]: "all_accessible (s\<lparr>cur := c\<rparr>) uva sz = all_accessible s uva sz"
  by (simp add: all_accessible_def)

lemma slot_None_id: "recover c = None \<Longrightarrow> c\<lparr>recover := None\<rparr> = c"
  by (cases c) simp

lemma cur_moved [simp]: "cur (moved copyout k uva sz g s) = cur s"
  by (cases k) (simp_all add: moved_def kstore_def)

lemma moved_slot:
  "recover (cur s) = None \<Longrightarrow>
   (moved copyout k uva sz g (s\<lparr>cur := (cur s)\<lparr>recover := r\<rparr>\<rparr>))\<lparr>cur := (cur s)\<lparr>recover := None\<rparr>\<rparr>
    = moved copyout k uva sz g s"
  by (cases k) (simp_all add: moved_def kstore_def kload_def ubytes_def slot_None_id)

lemma usercopy_ok:
  assumes "\<not> checkva_bad K uva sz" and "recover (cur s) = None" and "all_accessible s uva sz"
  shows "usercopy K utf copyout k uva sz s = Inr (moved copyout k uva sz (Some Sysrecover) s)"
  using assms
  by (simp add: usercopy_def checkva_def user_access_ok moved_slot)

lemma usercopy_Inl:
  assumes "usercopy K utf copyout k uva sz s = Inl (out, s')"
  shows "copy_frame s s' \<and> \<not> returns_normally out
         \<and> (checkva_bad K uva sz \<or> recover (cur s) \<noteq> None \<or> \<not> all_accessible s uva sz)"
proof (cases "checkva_bad K uva sz \<or> recover (cur s) \<noteq> None")
  case True
  with assms show ?thesis
    by (auto simp: usercopy_def checkva_def systrap_def returns_normally_def split: if_splits)
next
  case False
  with assms have
    "user_access K copyout k uva sz (s\<lparr>cur := (cur s)\<lparr>recover := Some Sysrecover\<rparr>\<rparr>) = Inl (out, s')"
    by (auto simp: usercopy_def checkva_def user_access_Inr split: sum.splits if_splits)
  from user_access_Inl [OF this] show ?thesis by simp
qed

lemma usercopy_Inr:
  "usercopy K utf copyout k uva sz s = Inr s' \<longleftrightarrow>
     \<not> checkva_bad K uva sz \<and> recover (cur s) = None \<and> all_accessible s uva sz
     \<and> s' = moved copyout k uva sz (Some Sysrecover) s"
proof
  assume r: "usercopy K utf copyout k uva sz s = Inr s'"
  then have a: "\<not> checkva_bad K uva sz" "recover (cur s) = None"
    by (auto simp: usercopy_def checkva_def split: if_splits sum.splits)
  with r have "all_accessible s uva sz"
    by (auto simp: usercopy_def checkva_def user_access_Inr split: if_splits sum.splits)
  with a r show "\<not> checkva_bad K uva sz \<and> recover (cur s) = None \<and> all_accessible s uva sz
     \<and> s' = moved copyout k uva sz (Some Sysrecover) s"
    by (simp add: usercopy_ok)
next
  assume "\<not> checkva_bad K uva sz \<and> recover (cur s) = None \<and> all_accessible s uva sz
     \<and> s' = moved copyout k uva sz (Some Sysrecover) s"
  then show "usercopy K utf copyout k uva sz s = Inr s'"
    by (simp add: usercopy_ok)
qed


lemma takeWhile_snoc_zero: "takeWhile (\<lambda>b. b \<noteq> (0::u8)) (xs @ [0]) = takeWhile (\<lambda>b. b \<noteq> 0) xs"
  by (induction xs) auto

lemma drop_replicate_Suc: "drop n (x # replicate n x) = [x]"
proof -
  have "drop n (replicate (Suc n) x) = replicate (Suc n - n) x"
    by (rule drop_replicate)
  then show ?thesis by simp
qed

lemma all_accessible_kbuf [simp]: "all_accessible (s\<lparr>kbuf := b\<rparr>) uva sz = all_accessible s uva sz"
  by (simp add: all_accessible_def)

lemma ubytes_kbuf [simp]: "ubytes (s\<lparr>kbuf := b\<rparr>) uva sz = ubytes s uva sz"
  by (simp add: ubytes_def)

subsection \<open>CPUTS\<close>

lemma checkva_bad_invalid: "\<not> va_valid K uva sz \<Longrightarrow> checkva_bad K uva sz"
  using checkva_good_valid [of K uva sz] by blast

lemma userhi_4_invalid:
  assumes "4 < n"
  shows "\<not> va_valid K (VM_USERHI K - 4) n"
proof (cases "4 \<le> VM_USERHI K")
  case True
  then have "unat (VM_USERHI K - 4) = unat (VM_USERHI K) - 4"
    by (simp add: unat_sub)
  moreover from True have "4 \<le> unat (VM_USERHI K)"
    by (simp add: word_le_nat_alt)
  moreover from assms have "4 < unat n"
    by (simp add: word_less_nat_alt)
  ultimately have "unat (VM_USERHI K) < unat (VM_USERHI K - 4) + unat n"
    by linarith
  then show ?thesis
    by (simp add: va_valid_def)
next
  case False
  then have "VM_USERHI K < VM_USERHI K - 4"
    by (simp add: not_le word_less_nat_alt unat_sub_if')
  then show ?thesis
    by (simp add: va_valid_def word_less_nat_alt)
qed

text \<open>
  C9, as stated, fails: not every CPUTS call returns to its caller, because the call
  reads \<open>CPUTS_MAX\<close> bytes whatever the length of the string. In the state below the
  string \<open>hi\<close> with its terminating zero lies in the last three accessible bytes of a
  page, inside the user range, as does the block of \<open>CPUTS_MAX = 8\<close> bytes at its
  address; the copy faults on the fourth byte, and the call ends in \<^verbatim>\<open>proc_ret\<close>
  with a page-fault trap, nothing printed.
\<close>

theorem do_cputs_short_string_faults:
  "ubytes (ex_state_tail (ex_tf 0 0x40000FFD 0 0)) 0x40000FFD 3 = [104, 105, 0]
   \<and> all_accessible (ex_state_tail (ex_tf 0 0x40000FFD 0 0)) 0x40000FFD 3
   \<and> va_valid ex_consts 0x40000FFD (CPUTS_MAX ex_consts)
   \<and> fst (do_cputs ex_consts (ex_tf 0 0x40000FFD 0 0) 0 (ex_state_tail (ex_tf 0 0x40000FFD 0 0)))
       = Proc_ret ((ex_tf 0 0x40000FFD 0 0)\<lparr>trapno := 14, err := 0\<rparr>) 0
   \<and> console (snd (do_cputs ex_consts (ex_tf 0 0x40000FFD 0 0) 0
                      (ex_state_tail (ex_tf 0 0x40000FFD 0 0)))) = []"
proof -
  let ?tf = "ex_tf 0 0x40000FFD 0 0"
  have u3: "uaddrs 0x40000FFD 3 = [0x40000FFD, 0x40000FFE, 0x40000FFF]"
    by (simp add: uaddrs_def upt_rec)
  have u8: "uaddrs 0x40000FFD 8 =
      [0x40000FFD, 0x40000FFE, 0x40000FFF, 0x40001000, 0x40001001, 0x40001002, 0x40001003,
       0x40001004]"
    by (simp add: uaddrs_def upt_rec)
  have m: "umem (ex_state_tail ?tf) 0x40000FFD = Some 104"
    "umem (ex_state_tail ?tf) 0x40000FFE = Some 105"
    "umem (ex_state_tail ?tf) 0x40000FFF = Some 0"
    "umem (ex_state_tail ?tf) 0x40001000 = None"
    by (simp_all add: ex_state_tail_def ex_umem_def)
  have c: "cur (ex_state_tail ?tf)
             = \<lparr>cpu_id = 0, cpu_proc = 1, recover = None, recoverdata = Some ?tf\<rparr>"
    "console (ex_state_tail ?tf) = []"
    by (simp_all add: ex_state_tail_def ex_state_rd_def ex_state_def)
  have k: "CPUTS_MAX ex_consts = 8" "VM_USERLO ex_consts = 0x40000000"
    "VM_USERHI ex_consts = 0xF0000000" "T_PGFLT ex_consts = 14" "hw_pgflt ex_consts = ex_fault"
    by (simp_all add: ex_consts_def)
  have t: "ebx (regs ?tf) = 0x40000FFD"
    by (simp add: ex_tf_def)
  have v: "\<not> checkva_bad ex_consts 0x40000FFD 8"
    by (simp add: checkva_bad_def k)
  have r: "fst (do_cputs ex_consts ?tf 0 (ex_state_tail ?tf))
             = Proc_ret (?tf\<lparr>trapno := 14, err := 0\<rparr>) 0
           \<and> console (snd (do_cputs ex_consts ?tf 0 (ex_state_tail ?tf))) = []"
    using v
    by (simp add: do_cputs_def usercopy_def checkva_def user_access_def memmove_user_def
          accessible_def u8 m c Let_def kstore_def kload_def trap_pgflt_def sysrecover_def
          systrap_def ex_fault_def k t)
  show ?thesis
    using r by (simp add: ubytes_def all_accessible_def u3 m va_valid_def k)
qed

text \<open>
  C9, amended. A CPUTS call reads a block of exactly \<open>CPUTS_MAX\<close> bytes at the pointer
  in EBX. When the block begins at or above \<open>USERLO\<close>, ends below \<open>USERHI\<close> and is
  accessible (the recovery slot being empty, as it is on entry to a system call), the
  call reads these bytes once, under the recovery handler, terminates the buffer with a
  zero, sends the bytes before the first zero to the console and ends in
  \<^verbatim>\<open>trap_return\<close> with the caller's trapframe; user memory and the processes are as
  before. When the block does not lie within the user range (it begins below \<open>USERLO\<close>
  or ends above \<open>USERHI\<close>) or is not accessible in full, the call prints nothing and
  does not return to its caller; when it does not lie within the user range, the call
  touches no user memory and reflects a page-fault trap with error code 0, the
  trapframe otherwise as the caller left it (EIP and ESP among it). Such is, with
  \<open>CPUTS_MAX > 4\<close>, a call whose pointer is \<open>USERHI - 4\<close>. (A block that ends exactly at
  \<open>USERHI\<close> is the matter of C1.)
\<close>

theorem do_cputs_outcomes:
  "(VM_USERLO K \<le> ebx (regs tf)
      \<and> unat (ebx (regs tf)) + unat (CPUTS_MAX K) < unat (VM_USERHI K)
      \<and> recover (cur s) = None \<and> all_accessible s (ebx (regs tf)) (CPUTS_MAX K) \<longrightarrow>
      (case do_cputs K tf cmd s of
         (out, s') \<Rightarrow>
           out = Trap_return tf
           \<and> kbuf s' = ubytes s (ebx (regs tf)) (CPUTS_MAX K) @ [0]
           \<and> console s' =
               console s @ takeWhile (\<lambda>b. b \<noteq> 0) (ubytes s (ebx (regs tf)) (CPUTS_MAX K))
           \<and> events s' =
               events s @ [Ev_user False (ebx (regs tf)) (CPUTS_MAX K) (Some Sysrecover)]
           \<and> umem s' = umem s \<and> procs s' = procs s \<and> cur s' = cur s))
   \<and> (\<not> va_valid K (ebx (regs tf)) (CPUTS_MAX K)
        \<or> \<not> all_accessible s (ebx (regs tf)) (CPUTS_MAX K) \<longrightarrow>
       (case do_cputs K tf cmd s of
          (out, s') \<Rightarrow> \<not> returns_normally out \<and> console s' = console s))
   \<and> (\<not> va_valid K (ebx (regs tf)) (CPUTS_MAX K)
        \<or> (4 < CPUTS_MAX K \<and> ebx (regs tf) = VM_USERHI K - 4) \<longrightarrow>
       (case do_cputs K tf cmd s of
          (out, s') \<Rightarrow>
            out = Proc_ret (tf\<lparr>trapno := T_PGFLT K, err := 0\<rparr>) 0
            \<and> eip (tf\<lparr>trapno := T_PGFLT K, err := 0\<rparr>) = eip tf
            \<and> esp (tf\<lparr>trapno := T_PGFLT K, err := 0\<rparr>) = esp tf
            \<and> console s' = console s \<and> events s' = events s \<and> umem s' = umem s))"
proof -
  let ?a = "ebx (regs tf)" and ?n = "CPUTS_MAX K"
  let ?s0 = "s\<lparr>kbuf := replicate (unat ?n + 1) 0\<rparr>"
  have A: "case do_cputs K tf cmd s of
            (out, s') \<Rightarrow>
              out = Trap_return tf
              \<and> kbuf s' = ubytes s ?a ?n @ [0]
              \<and> console s' = console s @ takeWhile (\<lambda>b. b \<noteq> 0) (ubytes s ?a ?n)
              \<and> events s' = events s @ [Ev_user False ?a ?n (Some Sysrecover)]
              \<and> umem s' = umem s \<and> procs s' = procs s \<and> cur s' = cur s"
    if "VM_USERLO K \<le> ?a" "unat ?a + unat ?n < unat (VM_USERHI K)"
      "recover (cur s) = None" "all_accessible s ?a ?n"
  proof -
    from that(1,2) have "\<not> checkva_bad K ?a ?n"
      by (simp add: checkva_bad_iff)
    with that(3,4) have "usercopy K tf False K_buf ?a ?n ?s0
                      = Inr (moved False K_buf ?a ?n (Some Sysrecover) ?s0)"
      by (intro usercopy_ok) simp_all
    then show ?thesis
      by (simp add: do_cputs_def Let_def moved_def kstore_def kload_def cprintf_s_def
            nth_append list_update_append takeWhile_snoc_zero drop_replicate_Suc)
  qed
  have B: "case do_cputs K tf cmd s of (out, s') \<Rightarrow> \<not> returns_normally out \<and> console s' = console s"
    if "\<not> va_valid K ?a ?n \<or> \<not> all_accessible s ?a ?n"
  proof -
    from that have "checkva_bad K ?a ?n \<or> \<not> all_accessible s ?a ?n"
      by (auto dest: checkva_bad_invalid)
    then have "\<forall>s'. usercopy K tf False K_buf ?a ?n ?s0 \<noteq> Inr s'"
      by (auto simp: usercopy_Inr)
    then obtain out s' where r: "usercopy K tf False K_buf ?a ?n ?s0 = Inl (out, s')"
      by (cases "usercopy K tf False K_buf ?a ?n ?s0") auto
    from usercopy_Inl [OF r] have "\<not> returns_normally out" "console s' = console s"
      by (simp_all add: copy_frame_def)
    with r show ?thesis by (simp add: do_cputs_def Let_def)
  qed
  have C: "case do_cputs K tf cmd s of
               (out, s') \<Rightarrow>
                 out = Proc_ret (tf\<lparr>trapno := T_PGFLT K, err := 0\<rparr>) 0
                 \<and> eip (tf\<lparr>trapno := T_PGFLT K, err := 0\<rparr>) = eip tf
                 \<and> esp (tf\<lparr>trapno := T_PGFLT K, err := 0\<rparr>) = esp tf
                 \<and> console s' = console s \<and> events s' = events s \<and> umem s' = umem s"
    if "\<not> va_valid K ?a ?n \<or> (4 < ?n \<and> ?a = VM_USERHI K - 4)"
  proof -
    from that have "\<not> va_valid K ?a ?n"
      by (auto simp: userhi_4_invalid)
    then have "checkva_bad K ?a ?n" by (rule checkva_bad_invalid)
    then show ?thesis
      by (simp add: do_cputs_def Let_def usercopy_def checkva_def systrap_def)
  qed
  show ?thesis
    by (intro conjI impI; (elim conjE)?) (rule A B C; assumption)+
qed

lemma ex_uaddrs8:
  "uaddrs 0x40000000 8 =
     [0x40000000, 0x40000001, 0x40000002, 0x40000003,
      0x40000004, 0x40000005, 0x40000006, 0x40000007]"
  by (simp add: uaddrs_def upt_rec)

theorem do_cputs_outcomes_witness:
  "fst (do_cputs ex_consts (ex_tf 0 0x40000000 0 0) 0 ex_state) = Trap_return (ex_tf 0 0x40000000 0 0)
   \<and> console (snd (do_cputs ex_consts (ex_tf 0 0x40000000 0 0) 0 ex_state))
       = [104, 101, 108, 108, 111]
   \<and> fst (do_cputs ex_consts (ex_tf 0 0xEFFFFFFC 0 0) 0 ex_state)
       = Proc_ret ((ex_tf 0 0xEFFFFFFC 0 0)\<lparr>trapno := 14, err := 0\<rparr>) 0
   \<and> console (snd (do_cputs ex_consts (ex_tf 0 0xEFFFFFFC 0 0) 0 ex_state)) = []"
proof -
  have c: "VM_USERLO ex_consts \<le> 0x40000000"
    "unat (0x40000000 :: u32) + unat (8 :: u32) < unat (VM_USERHI ex_consts)"
    by (simp_all add: ex_consts_def)
  have a: "all_accessible ex_state 0x40000000 8"
    by (simp add: all_accessible_def ex_uaddrs8 ex_state_def ex_umem_def)
  have b: "ubytes ex_state 0x40000000 8 = [104, 101, 108, 108, 111, 0, 6, 7]"
    by (simp add: ubytes_def ex_uaddrs8 ex_state_def ex_umem_def)
  have r: "recover (cur ex_state) = None" "console ex_state = []"
    by (simp_all add: ex_state_def)
  have e: "ebx (regs (ex_tf 0 0x40000000 0 0)) = 0x40000000" "CPUTS_MAX ex_consts = 8"
    "ebx (regs (ex_tf 0 0xEFFFFFFC 0 0)) = 0xEFFFFFFC" "(4 :: u32) < 8"
    "VM_USERHI ex_consts - 4 = 0xEFFFFFFC" "T_PGFLT ex_consts = 14"
    by (simp_all add: ex_consts_def ex_tf_def)
  from do_cputs_outcomes [of ex_consts "ex_tf 0 0x40000000 0 0" ex_state 0] c a b r e(1,2)
  have 1: "fst (do_cputs ex_consts (ex_tf 0 0x40000000 0 0) 0 ex_state)
             = Trap_return (ex_tf 0 0x40000000 0 0)
           \<and> console (snd (do_cputs ex_consts (ex_tf 0 0x40000000 0 0) 0 ex_state))
               = [104, 101, 108, 108, 111]"
    by (simp split: prod.splits)
  from do_cputs_outcomes [of ex_consts "ex_tf 0 0xEFFFFFFC 0 0" ex_state 0] r e(2-6)
  have 2: "fst (do_cputs ex_consts (ex_tf 0 0xEFFFFFFC 0 0) 0 ex_state)
             = Proc_ret ((ex_tf 0 0xEFFFFFFC 0 0)\<lparr>trapno := 14, err := 0\<rparr>) 0
           \<and> console (snd (do_cputs ex_consts (ex_tf 0 0xEFFFFFFC 0 0) 0 ex_state)) = []"
    by (simp split: prod.splits)
  from 1 2 show ?thesis by simp
qed


subsection \<open>The REGS steps\<close>

lemma umem_moved_in [simp]: "umem (moved False k uva sz g s) = umem s"
  by (cases k) (simp_all add: moved_def kstore_def)

lemma all_accessible_moved_in [simp]:
  "all_accessible (moved False k a n g s) uva sz = all_accessible s uva sz"
  by (simp add: all_accessible_def)

lemma map_upds_dom_mono: "m a \<noteq> None \<Longrightarrow> (m(xs [\<mapsto>] ys)) a \<noteq> None"
proof (induction xs arbitrary: m ys)
  case Nil
  then show ?case by simp
next
  case (Cons x xs)
  then show ?case by (cases ys) auto
qed

lemma all_accessible_moved_out:
  assumes "all_accessible s uva sz"
  shows "all_accessible (moved True k a n g s) uva sz"
proof -
  have "umem (moved True k a n g s) x \<noteq> None" if "umem s x \<noteq> None" for x
    using that by (simp only: moved_def if_True) (simp add: map_upds_dom_mono del: not_None_eq)
  with assms show ?thesis
    by (simp only: all_accessible_def list_all_iff) blast
qed

lemma events_moved [simp]:
  "events (moved copyout k uva sz g s) = events s @ [Ev_user copyout uva sz g]"
  by (cases k) (simp_all add: moved_def kstore_def)

lemma procs_moved_out [simp]: "procs (moved True k uva sz g s) = procs s"
  by (simp add: moved_def)

lemma kload_moved_out [simp]: "kload k' (moved True k uva sz g s) = kload k' s"
  by (cases k') (simp_all add: moved_def kload_def)

text \<open>The REGS step of PUT.\<close>

lemma usercopy_not_Inr:
  assumes "\<not> (\<not> checkva_bad K uva sz \<and> recover (cur s) = None \<and> all_accessible s uva sz)"
  obtains out s' where "usercopy K utf copyout k uva sz s = Inl (out, s')"
proof -
  from assms have "\<forall>s'. usercopy K utf copyout k uva sz s \<noteq> Inr s'"
    by (auto simp: usercopy_Inr)
  then show ?thesis
    using that by (cases "usercopy K utf copyout k uva sz s") auto
qed

lemma put_regs_Inr:
  "put_regs K tf cmd cp s = Inr s' \<longleftrightarrow>
     (if cmd AND SYS_REGS K \<noteq> 0
      then \<not> checkva_bad K (ebx (regs tf)) (regs_len K cmd) \<and> recover (cur s) = None
           \<and> all_accessible s (ebx (regs tf)) (regs_len K cmd)
           \<and> s' = put_regs_done K tf cmd cp s
      else s' = s)"
proof (cases "cmd AND SYS_REGS K \<noteq> 0")
  case False
  then show ?thesis by (auto simp: put_regs_def)
next
  case True
  let ?a = "ebx (regs tf)" and ?n = "regs_len K cmd"
  show ?thesis
  proof (cases "\<not> checkva_bad K ?a ?n \<and> recover (cur s) = None \<and> all_accessible s ?a ?n")
    case ok: True
    then have "put_regs K tf cmd cp s = Inr (put_regs_done K tf cmd cp s)"
      using True by (simp add: put_regs_def put_regs_done_def usercopy_ok user_access_ok Let_def)
    with True ok show ?thesis by auto
  next
    case bad: False
    then obtain out t where "usercopy K tf False (K_sv cp) ?a ?n s = Inl (out, t)"
      by (rule usercopy_not_Inr)
    with True bad show ?thesis by (auto simp: put_regs_def)
  qed
qed

lemma put_regs_Inl:
  assumes "put_regs K tf cmd cp s = Inl (out, s')"
  shows "copy_frame s s' \<and> \<not> returns_normally out"
proof -
  let ?a = "ebx (regs tf)" and ?n = "regs_len K cmd"
  from assms have regs: "cmd AND SYS_REGS K \<noteq> 0"
    by (auto simp: put_regs_def split: if_splits)
  show ?thesis
  proof (cases "usercopy K tf False (K_sv cp) ?a ?n s")
    case (Inl r)
    with assms regs have "usercopy K tf False (K_sv cp) ?a ?n s = Inl (out, s')"
      by (simp add: put_regs_def)
    from usercopy_Inl [OF this] show ?thesis by simp
  next
    case (Inr s1)
    then have s1: "s1 = moved False (K_sv cp) ?a ?n (Some Sysrecover) s"
      by (simp add: usercopy_Inr)
    from assms regs Inr have "user_access K False (K_sv cp) ?a ?n s1 = Inl (out, s')"
      by (auto simp: put_regs_def split: sum.splits)
    from user_access_Inl [OF this] have "copy_frame s1 s'" "\<not> returns_normally out"
      by simp_all
    moreover have "copy_frame s s1"
      unfolding s1 by (rule moved_frame)
    ultimately show ?thesis by (auto intro: copy_frame_trans)
  qed
qed

lemma kstore_sv_frame: "copy_frame s (kstore (K_sv c) bs s)"
  by (simp add: copy_frame_def kstore_def ctl_def)

lemma put_regs_done_frame: "copy_frame s (put_regs_done K tf cmd cp s)"
  unfolding put_regs_done_def Let_def
  by (rule copy_frame_trans [OF moved_frame], rule copy_frame_trans [OF moved_frame],
      rule kstore_sv_frame)

lemma put_regs_frame:
  "put_regs K tf cmd cp s = Inr s' \<Longrightarrow> copy_frame s s'"
  by (auto simp: put_regs_Inr put_regs_done_frame split: if_splits)

lemma events_kstore [simp]: "events (kstore k bs s) = events s"
  by (cases k) (simp_all add: kstore_def)

lemma events_put_regs_done:
  "events (put_regs_done K tf cmd cp s) =
     events s @ [Ev_user False (ebx (regs tf)) (regs_len K cmd) (Some Sysrecover),
                 Ev_user False (ebx (regs tf)) (regs_len K cmd) None]"
  by (simp add: put_regs_done_def Let_def)

text \<open>The REGS step of GET.\<close>

lemma procs_memmove_user_out: "procs (fst (memmove_user True k uva sz s)) = procs s"
  by (simp add: memmove_user_def Let_def)

lemma trap_pgflt_procs: "trap_pgflt ktf s = (out, s') \<Longrightarrow> procs s' = procs s"
  by (auto simp: trap_pgflt_def sysrecover_def systrap_def Let_def
      split: option.splits recover_fn.splits if_splits)

lemma user_access_out_procs:
  "user_access K True k uva sz s = Inl (out, s') \<Longrightarrow> procs s' = procs s"
  using procs_memmove_user_out [of k uva sz s]
  by (auto simp: user_access_def split: prod.splits option.splits dest!: trap_pgflt_procs)

lemma usercopy_out_procs:
  "usercopy K utf True k uva sz s = Inl (out, s') \<Longrightarrow> procs s' = procs s"
  by (auto simp: usercopy_def checkva_def systrap_def user_access_Inr split: if_splits sum.splits
      dest!: user_access_out_procs)

lemma get_regs_Inr:
  "get_regs K tf cmd cp s = Inr s' \<longleftrightarrow>
     (if cmd AND SYS_REGS K \<noteq> 0
      then \<not> checkva_bad K (ebx (regs tf)) (regs_len K cmd) \<and> recover (cur s) = None
           \<and> all_accessible s (ebx (regs tf)) (regs_len K cmd)
           \<and> s' = get_regs_done K tf cmd cp s
      else s' = s)"
proof (cases "cmd AND SYS_REGS K \<noteq> 0")
  case False
  then show ?thesis by (auto simp: get_regs_def)
next
  case True
  let ?a = "ebx (regs tf)" and ?n = "regs_len K cmd"
  show ?thesis
  proof (cases "\<not> checkva_bad K ?a ?n \<and> recover (cur s) = None \<and> all_accessible s ?a ?n")
    case ok: True
    then have "get_regs K tf cmd cp s = Inr (get_regs_done K tf cmd cp s)"
      using True
      by (simp add: get_regs_def get_regs_done_def usercopy_ok user_access_ok Let_def
            all_accessible_moved_out)
    with True ok show ?thesis by auto
  next
    case bad: False
    then obtain out t where "usercopy K tf True (K_sv cp) ?a ?n s = Inl (out, t)"
      by (rule usercopy_not_Inr)
    with True bad show ?thesis by (auto simp: get_regs_def)
  qed
qed

lemma get_regs_Inl:
  assumes "get_regs K tf cmd cp s = Inl (out, s')"
  shows "copy_frame s s' \<and> \<not> returns_normally out \<and> procs s' = procs s"
proof -
  let ?a = "ebx (regs tf)" and ?n = "regs_len K cmd"
  from assms have regs: "cmd AND SYS_REGS K \<noteq> 0"
    by (auto simp: get_regs_def split: if_splits)
  show ?thesis
  proof (cases "usercopy K tf True (K_sv cp) ?a ?n s")
    case (Inl r)
    with assms regs have u: "usercopy K tf True (K_sv cp) ?a ?n s = Inl (out, s')"
      by (simp add: get_regs_def)
    from usercopy_Inl [OF u] usercopy_out_procs [OF u] show ?thesis by simp
  next
    case (Inr s1)
    then have s1: "s1 = moved True (K_sv cp) ?a ?n (Some Sysrecover) s"
      by (simp add: usercopy_Inr)
    from assms regs Inr have u: "user_access K True (K_sv cp) ?a ?n s1 = Inl (out, s')"
      by (auto simp: get_regs_def split: sum.splits)
    from user_access_Inl [OF u] have "copy_frame s1 s'" "\<not> returns_normally out"
      by simp_all
    moreover have "copy_frame s s1"
      unfolding s1 by (rule moved_frame)
    moreover from user_access_out_procs [OF u] have "procs s' = procs s"
      by (simp add: s1)
    ultimately show ?thesis by (auto intro: copy_frame_trans)
  qed
qed

lemma get_regs_done_frame: "copy_frame s (get_regs_done K tf cmd cp s)"
  unfolding get_regs_done_def Let_def
  by (rule copy_frame_trans [OF moved_frame], rule moved_frame)

lemma procs_get_regs_done [simp]: "procs (get_regs_done K tf cmd cp s) = procs s"
  by (simp add: get_regs_done_def Let_def)

lemma events_get_regs_done:
  "events (get_regs_done K tf cmd cp s) =
     events s @ [Ev_user True (ebx (regs tf)) (regs_len K cmd) (Some Sysrecover),
                 Ev_user True (ebx (regs tf)) (regs_len K cmd) None]"
  by (simp add: get_regs_done_def Let_def)


subsection \<open>The memory operations\<close>

lemma region_bad_iff: "region_bad K va sz \<longleftrightarrow> \<not> region_valid K va sz"
proof (cases "va \<le> VM_USERHI K")
  case True
  then have "unat (VM_USERHI K - va) = unat (VM_USERHI K) - unat va"
    by (simp add: unat_sub)
  with True show ?thesis
    by (auto simp: region_bad_def region_valid_def word_le_nat_alt word_less_nat_alt)
next
  case False
  then show ?thesis
    by (auto simp: region_bad_def region_valid_def word_le_nat_alt word_less_nat_alt)
qed

lemma put_memop_invalid:
  assumes "cmd AND SYS_MEMOP K \<noteq> 0" and "put_invalid K tf cmd"
  shows "put_memop K tf cmd p cp s = Inl (Proc_ret (tf\<lparr>trapno := T_GPFLT K, err := 0\<rparr>) 0, s)"
  using assms
  by (auto simp: put_memop_def put_memop_dst_def put_invalid_def region_bad_iff systrap_def Let_def)

lemma put_memop_other:
  assumes "cmd AND SYS_MEMOP K \<noteq> 0" "cmd AND SYS_MEMOP K \<noteq> SYS_COPY K"
    "cmd AND SYS_MEMOP K \<noteq> SYS_ZERO K"
  shows "put_memop K tf cmd p cp s = Inl (Proc_ret (tf\<lparr>trapno := T_GPFLT K, err := 0\<rparr>) 0, s)"
  using assms by (simp add: put_memop_def systrap_def)

lemma get_memop_invalid:
  assumes "cmd AND SYS_MEMOP K \<noteq> 0" and "get_invalid K tf cmd"
  shows "get_memop K tf cmd p cp s = Inl (Proc_ret (tf\<lparr>trapno := T_GPFLT K, err := 0\<rparr>) 0, s)"
  using assms
  by (auto simp: get_memop_def get_memop_dst_def get_invalid_def region_bad_iff systrap_def Let_def)

lemma maps_untouched_refl [simp]: "maps_untouched s s"
  by (simp add: maps_untouched_def)

lemma ctl_eq_fields:
  "ctl a = ctl b \<Longrightarrow>
     state a = state b \<and> pdir a = pdir b \<and> rpdir a = rpdir b \<and> child a = child b
     \<and> parent a = parent b \<and> runcpu a = runcpu b \<and> lock a = lock b"
  by (cases a, cases b) (simp add: ctl_def)

lemma copy_frame_maps:
  assumes "maps_untouched s t" and "copy_frame t s'"
  shows "maps_untouched s s'"
proof -
  from assms(2) have c: "ctl (procs s' q) = ctl (procs t q)" for q
    by (simp add: copy_frame_def)
  from assms(2) obtain es where e: "events s' = events t @ es" "list_all is_user_event es"
    by (auto simp: copy_frame_def)
  have "pdir (procs s' q) = pdir (procs t q) \<and> rpdir (procs s' q) = rpdir (procs t q)" for q
    using ctl_eq_fields [OF c [of q]] by simp
  with assms(1) e show ?thesis
    by (auto simp: maps_untouched_def)
qed

text \<open>The heads of the handlers.\<close>

lemma put_child_Inl:
  assumes "put_child K tf s = Inl (out, s')"
  shows "\<not> returns_normally out \<and> maps_untouched s s'"
  using assms
  by (auto simp: put_child_def Let_def spinlock_acquire_def proc_alloc_def returns_normally_def
        maps_untouched_def
      split: if_splits option.splits prod.splits)

lemma put_child_Inr:
  assumes "put_child K tf s = Inr (cp, s1)"
  shows "maps_untouched s s1 \<and> cur s1 = cur s \<and> events s1 = events s \<and> umem s1 = umem s
         \<and> child (procs s1 (cpu_proc (cur s))) (child_index tf) = Some cp
         \<and> state (procs s1 cp) = PROC_STOP"
  using assms
  by (auto simp: put_child_def Let_def spinlock_acquire_def spinlock_release_def proc_alloc_def
        maps_untouched_def
      split: if_splits option.splits prod.splits)

lemma get_child_Inl:
  assumes "get_child tf s = Inl (out, s')"
  shows "\<not> returns_normally out \<and> maps_untouched s s'"
  using assms
  by (auto simp: get_child_def Let_def spinlock_acquire_def returns_normally_def
        maps_untouched_def
      split: if_splits option.splits prod.splits)

lemma get_child_Inr:
  assumes "get_child tf s = Inr (cp, s1)"
  shows "maps_untouched s s1 \<and> cur s1 = cur s \<and> events s1 = events s \<and> umem s1 = umem s
         \<and> state (procs s1 cp) = PROC_STOP"
  using assms
  by (auto simp: get_child_def Let_def spinlock_acquire_def spinlock_release_def
        maps_untouched_def
      split: if_splits option.splits prod.splits)

text \<open>A handler whose MEMOP step reflects the trap.\<close>

lemma do_put_memop_reflects:
  assumes R: "\<And>cp t. put_memop K tf cmd (cpu_proc (cur s)) cp t
                  = Inl (Proc_ret (tf\<lparr>trapno := T_GPFLT K, err := 0\<rparr>) 0, t)"
    and D: "do_put K tf cmd s = (out, s')"
  shows "\<not> returns_normally out \<and> maps_untouched s s'
         \<and> (\<forall>s2. put_reaches_memop K tf cmd s = Some s2 \<longrightarrow>
                out = Proc_ret (tf\<lparr>trapno := T_GPFLT K, err := 0\<rparr>) 0 \<and> s' = s2)"
proof (cases "put_child K tf s")
  case (Inl r)
  with D have "put_child K tf s = Inl (out, s')"
    by (simp add: do_put_def)
  from put_child_Inl [OF this] Inl show ?thesis
    by (simp add: put_reaches_memop_def)
next
  case (Inr x)
  obtain cp s1 where x: "x = (cp, s1)" by (cases x)
  note c = put_child_Inr [OF Inr [unfolded x]]
  show ?thesis
  proof (cases "put_regs K tf cmd cp s1")
    case regs: (Inl r)
    with D Inr x have r: "put_regs K tf cmd cp s1 = Inl (out, s')"
      by (simp add: do_put_def)
    from put_regs_Inl [OF r] c have "\<not> returns_normally out" "maps_untouched s s'"
      by (auto intro: copy_frame_maps)
    with Inr x regs show ?thesis
      by (simp add: put_reaches_memop_def)
  next
    case regs: (Inr s2)
    from put_regs_frame [OF regs] c have "maps_untouched s s2"
      by (auto intro: copy_frame_maps)
    moreover from D Inr x regs R [of cp s2]
    have "out = Proc_ret (tf\<lparr>trapno := T_GPFLT K, err := 0\<rparr>) 0" "s' = s2"
      by (simp_all add: do_put_def)
    ultimately show ?thesis
      using Inr x regs by (simp add: put_reaches_memop_def returns_normally_def)
  qed
qed

lemma do_get_memop_reflects:
  assumes R: "\<And>cp t. get_memop K tf cmd (cpu_proc (cur s)) cp t
                  = Inl (Proc_ret (tf\<lparr>trapno := T_GPFLT K, err := 0\<rparr>) 0, t)"
    and D: "do_get K tf cmd s = (out, s')"
  shows "\<not> returns_normally out \<and> maps_untouched s s'
         \<and> (\<forall>s2. get_reaches_memop K tf cmd s = Some s2 \<longrightarrow>
                out = Proc_ret (tf\<lparr>trapno := T_GPFLT K, err := 0\<rparr>) 0 \<and> s' = s2)"
proof (cases "get_child tf s")
  case (Inl r)
  with D have "get_child tf s = Inl (out, s')"
    by (simp add: do_get_def)
  from get_child_Inl [OF this] Inl show ?thesis
    by (simp add: get_reaches_memop_def)
next
  case (Inr x)
  obtain cp s1 where x: "x = (cp, s1)" by (cases x)
  note c = get_child_Inr [OF Inr [unfolded x]]
  show ?thesis
  proof (cases "get_regs K tf cmd cp s1")
    case regs: (Inl r)
    with D Inr x have r: "get_regs K tf cmd cp s1 = Inl (out, s')"
      by (simp add: do_get_def)
    from get_regs_Inl [OF r] c have "\<not> returns_normally out" "maps_untouched s s'"
      by (auto intro: copy_frame_maps)
    with Inr x regs show ?thesis
      by (simp add: get_reaches_memop_def)
  next
    case regs: (Inr s2)
    then have "copy_frame s1 s2"
      by (auto simp: get_regs_Inr get_regs_done_frame split: if_splits)
    with c have "maps_untouched s s2"
      by (auto intro: copy_frame_maps)
    moreover from D Inr x regs R [of cp s2]
    have "out = Proc_ret (tf\<lparr>trapno := T_GPFLT K, err := 0\<rparr>) 0" "s' = s2"
      by (simp_all add: do_get_def)
    ultimately show ?thesis
      using Inr x regs by (simp add: get_reaches_memop_def returns_normally_def)
  qed
qed

lemma ex_consts_simps [simp]:
  "VM_USERLO ex_consts = 0x40000000"
  "VM_USERHI ex_consts = 0xF0000000"
  "T_PGFLT ex_consts = 14"
  "T_GPFLT ex_consts = 13"
  "SYS_TYPE ex_consts = 0xF"
  "SYS_CPUTS ex_consts = 0"
  "SYS_PUT ex_consts = 1"
  "SYS_GET ex_consts = 2"
  "SYS_RET ex_consts = 3"
  "SYS_REGS ex_consts = 0x1000"
  "SYS_FPU ex_consts = 0x2000"
  "SYS_MEMOP ex_consts = 0x30000"
  "SYS_COPY ex_consts = 0x20000"
  "SYS_ZERO ex_consts = 0x10000"
  "SYS_MERGE ex_consts = 0x30000"
  "SYS_PERM ex_consts = 0x100"
  "SYS_RW ex_consts = 0x600"
  "SYS_SNAP ex_consts = 0x40000"
  "SYS_START ex_consts = 0x10"
  "FL_CF ex_consts = 0x1"
  "FL_PF ex_consts = 0x4"
  "FL_AF ex_consts = 0x10"
  "FL_ZF ex_consts = 0x40"
  "FL_SF ex_consts = 0x80"
  "FL_DF ex_consts = 0x400"
  "FL_OF ex_consts = 0x800"
  "FL_IF ex_consts = 0x200"
  "CPU_GDT_UCODE ex_consts = 0x18"
  "CPU_GDT_UDATA ex_consts = 0x20"
  "CPUTS_MAX ex_consts = 8"
  "PTOFF ex_consts = (\<lambda>va. va AND 0x3FFFFF)"
  "PGOFF ex_consts = (\<lambda>va. va AND 0xFFF)"
  "sizeof_procstate ex_consts = 96"
  "offsetof_fx ex_consts = 80"
  "off_ds ex_consts = 44"
  "off_es ex_consts = 40"
  "off_cs ex_consts = 60"
  "off_ss ex_consts = 72"
  "off_eflags ex_consts = 64"
  "hw_pgflt ex_consts = ex_fault"
  by (simp_all add: ex_consts_def)

lemma ex_tf_simps [simp]:
  "regs (ex_tf cmd ptr cn sz)
     = \<lparr>edi = 0x40000000, esi = 0x40000000, ebx = ptr, edx = cn, ecx = sz, eax = cmd\<rparr>"
  "eip (ex_tf cmd ptr cn sz) = 0x40000100"
  "esp (ex_tf cmd ptr cn sz) = 0xEFFFFF00"
  "trapno (ex_tf cmd ptr cn sz) = 48"
  "err (ex_tf cmd ptr cn sz) = 0"
  by (simp_all add: ex_tf_def)

lemma ex_put_child:
  "put_child ex_consts (ex_tf cmd ptr 7 sz) ex_state
     = Inr (2, spinlock_release 1 (spinlock_acquire 1 ex_state))"
  by (simp add: put_child_def ex_state_def child_index_def Let_def spinlock_acquire_def
        spinlock_release_def ex_proc_def)

lemma ex_get_child:
  "get_child (ex_tf cmd ptr 7 sz) ex_state
     = Inr (2, spinlock_release 1 (spinlock_acquire 1 ex_state))"
  by (simp add: get_child_def ex_state_def child_index_def Let_def spinlock_acquire_def
        spinlock_release_def ex_proc_def)

text \<open>
  C3, as stated, fails: the regions are tested in the MEMOP step, and the REGS step
  comes first. A PUT call with COPY and REGS whose size is 1, so that no region of it is
  valid, and whose save-area pointer is 0 ends in the REGS step with a page-fault trap
  (14), not with the general-protection trap (13); and so does such a GET call with
  MERGE.
\<close>

theorem memop_invalid_regs_fault_first:
  "put_invalid ex_consts (ex_tf 0x21001 0 7 1) 0x21001
   \<and> fst (do_put ex_consts (ex_tf 0x21001 0 7 1) 0x21001 ex_state)
       = Proc_ret ((ex_tf 0x21001 0 7 1)\<lparr>trapno := 14, err := 0\<rparr>) 0
   \<and> get_invalid ex_consts (ex_tf 0x31002 0 7 1) 0x31002
   \<and> fst (do_get ex_consts (ex_tf 0x31002 0 7 1) 0x31002 ex_state)
       = Proc_ret ((ex_tf 0x31002 0 7 1)\<lparr>trapno := 14, err := 0\<rparr>) 0
   \<and> T_GPFLT ex_consts = 13"
  by (simp add: put_invalid_def get_invalid_def region_valid_def do_put_def do_get_def
        ex_put_child ex_get_child put_regs_def get_regs_def usercopy_def checkva_def
        checkva_bad_def systrap_def)

text \<open>
  C3, amended. Let the MEMOP bits of a PUT or GET call be other than NONE, and let a
  region of the call not be valid: the destination region, or the source region of a
  COPY (on GET also of a MERGE), is not aligned to a page table in address and size, or
  does not lie within the user range, the end \<open>va + size\<close> taken in the integers
  (\<open>region_valid\<close>; the code's wrap-safe test \<open>region_bad\<close> is its exact negation,
  \<open>region_bad_iff\<close>). Then the call does not return to its caller, no page map of any
  process has changed and the page-map module has not been called; and when the handler
  arrives at its MEMOP step (the head and the REGS step have completed), the call ends
  there in \<^verbatim>\<open>proc_ret\<close> with trap number \<open>T_GPFLT\<close> and error code 0, in the state
  of that moment.
\<close>

theorem memop_validation_failure_reflects:
  assumes "cmd AND SYS_MEMOP K \<noteq> 0"
  shows "(put_invalid K tf cmd \<longrightarrow>
           (case do_put K tf cmd s of
              (out, s') \<Rightarrow>
                \<not> returns_normally out \<and> maps_untouched s s'
                \<and> (\<forall>s2. put_reaches_memop K tf cmd s = Some s2 \<longrightarrow>
                      out = Proc_ret (tf\<lparr>trapno := T_GPFLT K, err := 0\<rparr>) 0 \<and> s' = s2)))
       \<and> (get_invalid K tf cmd \<longrightarrow>
           (case do_get K tf cmd s of
              (out, s') \<Rightarrow>
                \<not> returns_normally out \<and> maps_untouched s s'
                \<and> (\<forall>s2. get_reaches_memop K tf cmd s = Some s2 \<longrightarrow>
                      out = Proc_ret (tf\<lparr>trapno := T_GPFLT K, err := 0\<rparr>) 0 \<and> s' = s2)))"
proof (intro conjI impI)
  assume i: "put_invalid K tf cmd"
  obtain out s' where d: "do_put K tf cmd s = (out, s')" by (cases "do_put K tf cmd s")
  from do_put_memop_reflects [OF put_memop_invalid [OF assms i] d] d
  show "case do_put K tf cmd s of
              (out, s') \<Rightarrow>
                \<not> returns_normally out \<and> maps_untouched s s'
                \<and> (\<forall>s2. put_reaches_memop K tf cmd s = Some s2 \<longrightarrow>
                      out = Proc_ret (tf\<lparr>trapno := T_GPFLT K, err := 0\<rparr>) 0 \<and> s' = s2)"
    by simp
next
  assume i: "get_invalid K tf cmd"
  obtain out s' where d: "do_get K tf cmd s = (out, s')" by (cases "do_get K tf cmd s")
  from do_get_memop_reflects [OF get_memop_invalid [OF assms i] d] d
  show "case do_get K tf cmd s of
              (out, s') \<Rightarrow>
                \<not> returns_normally out \<and> maps_untouched s s'
                \<and> (\<forall>s2. get_reaches_memop K tf cmd s = Some s2 \<longrightarrow>
                      out = Proc_ret (tf\<lparr>trapno := T_GPFLT K, err := 0\<rparr>) 0 \<and> s' = s2)"
    by simp
qed

theorem memop_validation_failure_reflects_witness:
  "fst (do_put ex_consts (ex_tf 0x20001 0 7 1) 0x20001 ex_state)
     = Proc_ret ((ex_tf 0x20001 0 7 1)\<lparr>trapno := 13, err := 0\<rparr>) 0
   \<and> fst (do_get ex_consts (ex_tf 0x30002 0 7 1) 0x30002 ex_state)
     = Proc_ret ((ex_tf 0x30002 0 7 1)\<lparr>trapno := 13, err := 0\<rparr>) 0"
proof -
  have m: "0x20001 AND SYS_MEMOP ex_consts \<noteq> 0" "0x30002 AND SYS_MEMOP ex_consts \<noteq> 0"
    by simp_all
  have i: "put_invalid ex_consts (ex_tf 0x20001 0 7 1) 0x20001"
    "get_invalid ex_consts (ex_tf 0x30002 0 7 1) 0x30002"
    by (simp_all add: put_invalid_def get_invalid_def region_valid_def)
  have r: "put_reaches_memop ex_consts (ex_tf 0x20001 0 7 1) 0x20001 ex_state
             = Some (spinlock_release 1 (spinlock_acquire 1 ex_state))"
    "get_reaches_memop ex_consts (ex_tf 0x30002 0 7 1) 0x30002 ex_state
             = Some (spinlock_release 1 (spinlock_acquire 1 ex_state))"
    by (simp_all add: put_reaches_memop_def get_reaches_memop_def ex_put_child ex_get_child
          put_regs_def get_regs_def)
  from memop_validation_failure_reflects [OF m(1), where tf = "ex_tf 0x20001 0 7 1" and s = ex_state]
    memop_validation_failure_reflects [OF m(2), where tf = "ex_tf 0x30002 0 7 1" and s = ex_state]
    i r
  show ?thesis
    by (simp split: prod.splits)
qed

text \<open>
  C4, as stated, fails: a PUT call with the MERGE pattern in its MEMOP bits and the REGS
  bit set, whose save-area pointer is 0, ends in the REGS step, which comes first, with
  a page-fault trap (14), not with the general-protection trap (13).
\<close>

theorem put_bad_memop_regs_fault_first:
  "fst (do_put ex_consts (ex_tf 0x31001 0 7 0) 0x31001 ex_state)
     = Proc_ret ((ex_tf 0x31001 0 7 0)\<lparr>trapno := 14, err := 0\<rparr>) 0
   \<and> T_GPFLT ex_consts = 13"
  by (simp add: do_put_def ex_put_child put_regs_def usercopy_def checkva_def checkva_bad_def
        systrap_def)

text \<open>
  C4, amended. A PUT call whose MEMOP bits are not NONE, COPY or ZERO never returns to
  its caller, changes no page map and does not call the page-map module; when the
  handler arrives at its MEMOP step (the head has found or allocated a stopped child and
  the REGS step, if asked for, has completed), the call ends there in \<^verbatim>\<open>proc_ret\<close>
  with trap number \<open>T_GPFLT\<close> and error code 0, in the state of that moment.
\<close>

theorem put_bad_memop_reflects:
  assumes "cmd AND SYS_MEMOP K \<noteq> 0" "cmd AND SYS_MEMOP K \<noteq> SYS_COPY K"
    "cmd AND SYS_MEMOP K \<noteq> SYS_ZERO K"
  shows "case do_put K tf cmd s of
           (out, s') \<Rightarrow>
             \<not> returns_normally out \<and> maps_untouched s s'
             \<and> (\<forall>s2. put_reaches_memop K tf cmd s = Some s2 \<longrightarrow>
                   out = Proc_ret (tf\<lparr>trapno := T_GPFLT K, err := 0\<rparr>) 0 \<and> s' = s2)"
proof -
  obtain out s' where d: "do_put K tf cmd s = (out, s')" by (cases "do_put K tf cmd s")
  from do_put_memop_reflects [OF put_memop_other [OF assms] d] d
  show ?thesis by simp
qed

theorem put_bad_memop_reflects_witness:
  "fst (do_put ex_consts (ex_tf 0x30001 0 7 0) 0x30001 ex_state)
     = Proc_ret ((ex_tf 0x30001 0 7 0)\<lparr>trapno := 13, err := 0\<rparr>) 0"
proof -
  have m: "0x30001 AND SYS_MEMOP ex_consts \<noteq> 0"
    "0x30001 AND SYS_MEMOP ex_consts \<noteq> SYS_COPY ex_consts"
    "0x30001 AND SYS_MEMOP ex_consts \<noteq> SYS_ZERO ex_consts"
    by simp_all
  have r: "put_reaches_memop ex_consts (ex_tf 0x30001 0 7 0) 0x30001 ex_state
             = Some (spinlock_release 1 (spinlock_acquire 1 ex_state))"
    by (simp_all add: put_reaches_memop_def ex_put_child put_regs_def)
  from put_bad_memop_reflects [OF m, where tf = "ex_tf 0x30001 0 7 0" and s = ex_state] r
  show ?thesis
    by (simp split: prod.splits)
qed


subsection \<open>The steps of a handler, one after the other\<close>

text \<open>How a call runs through the steps of its handler.\<close>

lemma do_get_cases:
  assumes "do_get K tf cmd s = (out, s')"
  obtains
    (head) "get_child tf s = Inl (out, s')"
  | (regs) cp s1 where "get_child tf s = Inr (cp, s1)" "get_regs K tf cmd cp s1 = Inl (out, s')"
  | (memop) cp s1 s2 where "get_child tf s = Inr (cp, s1)" "get_regs K tf cmd cp s1 = Inr s2"
      "get_memop K tf cmd (cpu_proc (cur s)) cp s2 = Inl (out, s')"
  | (perm) cp s1 s2 s3 where "get_child tf s = Inr (cp, s1)" "get_regs K tf cmd cp s1 = Inr s2"
      "get_memop K tf cmd (cpu_proc (cur s)) cp s2 = Inr s3"
      "do_perm K tf cmd (cpu_proc (cur s)) ''pmap_get: no memory to set permissions'' s3
         = Inl (out, s')"
  | (snap) cp s1 s2 s3 where "get_child tf s = Inr (cp, s1)" "get_regs K tf cmd cp s1 = Inr s2"
      "get_memop K tf cmd (cpu_proc (cur s)) cp s2 = Inr s3"
      "do_perm K tf cmd (cpu_proc (cur s)) ''pmap_get: no memory to set permissions'' s3
         = Inr s'"
      "cmd AND SYS_SNAP K \<noteq> 0" "out = Proc_ret (tf\<lparr>trapno := T_GPFLT K, err := 0\<rparr>) 0"
  | (complete) cp s1 s2 s3 where "get_child tf s = Inr (cp, s1)" "get_regs K tf cmd cp s1 = Inr s2"
      "get_memop K tf cmd (cpu_proc (cur s)) cp s2 = Inr s3"
      "do_perm K tf cmd (cpu_proc (cur s)) ''pmap_get: no memory to set permissions'' s3
         = Inr s'"
      "cmd AND SYS_SNAP K = 0" "out = Trap_return tf"
  using assms
  by (auto simp: do_get_def systrap_def split: sum.splits prod.splits if_splits)

lemma do_put_cases:
  assumes "do_put K tf cmd s = (out, s')"
  obtains
    (head) "put_child K tf s = Inl (out, s')"
  | (regs) cp s1 where "put_child K tf s = Inr (cp, s1)" "put_regs K tf cmd cp s1 = Inl (out, s')"
  | (memop) cp s1 s2 where "put_child K tf s = Inr (cp, s1)" "put_regs K tf cmd cp s1 = Inr s2"
      "put_memop K tf cmd (cpu_proc (cur s)) cp s2 = Inl (out, s')"
  | (perm) cp s1 s2 s3 where "put_child K tf s = Inr (cp, s1)" "put_regs K tf cmd cp s1 = Inr s2"
      "put_memop K tf cmd (cpu_proc (cur s)) cp s2 = Inr s3"
      "do_perm K tf cmd cp ''pmap_put: no memory to set permissions'' s3 = Inl (out, s')"
  | (complete) cp s1 s2 s3 s4 where "put_child K tf s = Inr (cp, s1)"
      "put_regs K tf cmd cp s1 = Inr s2"
      "put_memop K tf cmd (cpu_proc (cur s)) cp s2 = Inr s3"
      "do_perm K tf cmd cp ''pmap_put: no memory to set permissions'' s3 = Inr s4"
      "s' = put_start K cmd cp (put_snap K cmd cp s4)" "out = Trap_return tf"
  using assms
  by (auto simp: do_put_def split: sum.splits prod.splits if_splits)

text \<open>A step that works on the page map of one process.\<close>

lemma pdir_step_refl [simp]: "pdir_step c s s"
  by (simp add: pdir_step_def)

lemma memop_Inl:
  "put_memop K tf cmd p cp s = Inl (out, s') \<Longrightarrow>
     s' = s \<and> out = Proc_ret (tf\<lparr>trapno := T_GPFLT K, err := 0\<rparr>) 0"
  "get_memop K tf cmd p cp s = Inl (out, s') \<Longrightarrow>
     s' = s \<and> out = Proc_ret (tf\<lparr>trapno := T_GPFLT K, err := 0\<rparr>) 0"
  by (auto simp: put_memop_def put_memop_dst_def get_memop_def get_memop_dst_def systrap_def
        Let_def split: if_splits)

lemma put_memop_Inr: "put_memop K tf cmd p cp s = Inr s' \<Longrightarrow> pdir_step cp s s'"
  by (auto simp: put_memop_def put_memop_dst_def Let_def pdir_step_def set_pdir_def log_pmap_def
      split: if_splits)

lemma get_memop_Inr: "get_memop K tf cmd p cp s = Inr s' \<Longrightarrow> pdir_step p s s'"
  by (auto simp: get_memop_def get_memop_dst_def Let_def pdir_step_def set_pdir_def log_pmap_def
      split: if_splits)

lemma do_perm_Inl:
  "do_perm K tf cmd c msg s = Inl (out, s') \<Longrightarrow> s' = s \<and> \<not> returns_normally out"
  by (auto simp: do_perm_def Let_def systrap_def returns_normally_def
      split: if_splits option.splits)

lemma do_perm_Inr: "do_perm K tf cmd c msg s = Inr s' \<Longrightarrow> pdir_step c s s'"
  by (auto simp: do_perm_def Let_def pdir_step_def set_pdir_def log_pmap_def
      split: if_splits option.splits)


text \<open>GET changes no process but its caller.\<close>

lemma caller_only_refl [simp]: "caller_only p s s"
  by (simp add: caller_only_def)

lemma caller_only_trans:
  assumes "caller_only p s t" and "caller_only p t u"
  shows "caller_only p s u"
proof -
  have "(procs u p)\<lparr>pdir := pdir (procs s p), lock := lock (procs s p)\<rparr> = procs s p"
    if "(procs t p)\<lparr>pdir := pdir (procs s p), lock := lock (procs s p)\<rparr> = procs s p"
      and "(procs u p)\<lparr>pdir := pdir (procs t p), lock := lock (procs t p)\<rparr> = procs t p"
    using that by (cases "procs s p", cases "procs t p", cases "procs u p") simp
  with assms show ?thesis
    by (auto simp: caller_only_def)
qed

lemma get_child_caller_only:
  "get_child tf s = Inl (out, s') \<Longrightarrow> caller_only (cpu_proc (cur s)) s s'"
  "get_child tf s = Inr (cp, s') \<Longrightarrow> caller_only (cpu_proc (cur s)) s s'"
  by (auto simp: get_child_def Let_def spinlock_acquire_def spinlock_release_def caller_only_def
      split: if_splits)

lemma procs_eq_caller_only:
  "procs s' = procs s \<Longrightarrow> nextpid s' = nextpid s \<Longrightarrow> nomem s' = nomem s
     \<Longrightarrow> caller_only p s s'"
  by (simp add: caller_only_def)

lemma copy_frame_alloc: "copy_frame s s' \<Longrightarrow> nextpid s' = nextpid s \<and> nomem s' = nomem s"
  by (simp add: copy_frame_def)

lemma get_regs_caller_only:
  "get_regs K tf cmd cp s = Inl (out, s') \<Longrightarrow> caller_only p s s'"
  "get_regs K tf cmd cp s = Inr s' \<Longrightarrow> caller_only p s s'"
proof -
  assume "get_regs K tf cmd cp s = Inl (out, s')"
  from get_regs_Inl [OF this] show "caller_only p s s'"
    by (auto intro: procs_eq_caller_only dest: copy_frame_alloc)
next
  assume "get_regs K tf cmd cp s = Inr s'"
  then have "s' = s \<or> s' = get_regs_done K tf cmd cp s"
    by (auto simp: get_regs_Inr split: if_splits)
  then show "caller_only p s s'"
    using get_regs_done_frame [of s K tf cmd cp]
    by (auto intro: procs_eq_caller_only dest: copy_frame_alloc)
qed

lemma pdir_step_caller_only: "pdir_step p s s' \<Longrightarrow> caller_only p s s'"
proof -
  assume a: "pdir_step p s s'"
  then have "(procs s' p)\<lparr>pdir := pdir (procs s p)\<rparr> = procs s p"
    by (simp add: pdir_step_def)
  then have "(procs s' p)\<lparr>pdir := pdir (procs s p), lock := lock (procs s p)\<rparr> = procs s p"
    by (cases "procs s p", cases "procs s' p") simp
  with a show ?thesis by (simp add: caller_only_def pdir_step_def)
qed

lemma do_get_caller_only:
  assumes "do_get K tf cmd s = (out, s')"
  shows "caller_only (cpu_proc (cur s)) s s'"
  using assms
proof (cases rule: do_get_cases)
  case head
  then show ?thesis by (rule get_child_caller_only)
next
  case (regs cp s1)
  from get_child_caller_only(2) [OF regs(1)] get_regs_caller_only(1) [OF regs(2)]
  show ?thesis by (rule caller_only_trans)
next
  case (memop cp s1 s2)
  from memop_Inl(2) [OF memop(3)] have "s' = s2" by simp
  with get_child_caller_only(2) [OF memop(1)] get_regs_caller_only(2) [OF memop(2)]
  show ?thesis by (auto intro: caller_only_trans)
next
  case (perm cp s1 s2 s3)
  from do_perm_Inl [OF perm(4)] have "s' = s3" by simp
  with get_child_caller_only(2) [OF perm(1)] get_regs_caller_only(2) [OF perm(2)]
    pdir_step_caller_only [OF get_memop_Inr [OF perm(3)]]
  show ?thesis by (auto intro: caller_only_trans)
next
  case (snap cp s1 s2 s3)
  with get_child_caller_only(2) [OF snap(1)] get_regs_caller_only(2) [OF snap(2)]
    pdir_step_caller_only [OF get_memop_Inr [OF snap(3)]]
    pdir_step_caller_only [OF do_perm_Inr [OF snap(4)]]
  show ?thesis by (blast intro: caller_only_trans)
next
  case (complete cp s1 s2 s3)
  with get_child_caller_only(2) [OF complete(1)] get_regs_caller_only(2) [OF complete(2)]
    pdir_step_caller_only [OF get_memop_Inr [OF complete(3)]]
    pdir_step_caller_only [OF do_perm_Inr [OF complete(4)]]
  show ?thesis by (blast intro: caller_only_trans)
qed

lemma do_get_snap_outcome:
  assumes "do_get K tf cmd s = (out, s')" and "cmd AND SYS_SNAP K \<noteq> 0"
  shows "\<not> returns_normally out
         \<and> (\<forall>s4. get_reaches_snap K tf cmd s = Some s4 \<longrightarrow>
               out = Proc_ret (tf\<lparr>trapno := T_GPFLT K, err := 0\<rparr>) 0 \<and> s' = s4)"
  using assms(1)
proof (cases rule: do_get_cases)
  case head
  with get_child_Inl [OF head] show ?thesis by (simp add: get_reaches_snap_def)
next
  case (regs cp s1)
  with get_regs_Inl [OF regs(2)] show ?thesis by (simp add: get_reaches_snap_def)
next
  case (memop cp s1 s2)
  with memop_Inl(2) [OF memop(3)] show ?thesis
    by (simp add: get_reaches_snap_def returns_normally_def)
next
  case (perm cp s1 s2 s3)
  with do_perm_Inl [OF perm(4)] show ?thesis by (simp add: get_reaches_snap_def)
next
  case (snap cp s1 s2 s3)
  then show ?thesis by (simp add: get_reaches_snap_def returns_normally_def)
next
  case (complete cp s1 s2 s3)
  with assms(2) show ?thesis by simp
qed

text \<open>
  C5, as stated, fails: a GET call with the SNAP and REGS bits set whose save-area
  pointer is 0 ends in the REGS step, which comes first, with a page-fault trap (14),
  not with the general-protection trap (13).
\<close>

theorem get_snap_regs_fault_first:
  "fst (do_get ex_consts (ex_tf 0x41002 0 7 0) 0x41002 ex_state)
     = Proc_ret ((ex_tf 0x41002 0 7 0)\<lparr>trapno := 14, err := 0\<rparr>) 0
   \<and> T_GPFLT ex_consts = 13"
  by (simp add: do_get_def ex_get_child get_regs_def usercopy_def checkva_def checkva_bad_def
        systrap_def)

text \<open>
  C5, amended. \<^verbatim>\<open>do_get\<close> tests the SNAP bit last. A GET call with the SNAP bit set
  never returns to its caller and changes no process but the caller, so the child is as
  it was; when the handler arrives at the test (the head has found the child stopped, or
  the sentinel for an empty slot, and the REGS, MEMOP and PERM steps have completed and
  keep their effect on the caller), the call ends there in \<^verbatim>\<open>proc_ret\<close> with trap
  number \<open>T_GPFLT\<close> and error code 0. Otherwise it has ended in one of these steps.
\<close>

theorem get_snap_rejected:
  assumes "cmd AND SYS_SNAP K \<noteq> 0"
  shows "case do_get K tf cmd s of
           (out, s') \<Rightarrow>
             \<not> returns_normally out
             \<and> (\<forall>q. q \<noteq> cpu_proc (cur s) \<longrightarrow> procs s' q = procs s q)
             \<and> (\<forall>s4. get_reaches_snap K tf cmd s = Some s4 \<longrightarrow>
                   out = Proc_ret (tf\<lparr>trapno := T_GPFLT K, err := 0\<rparr>) 0 \<and> s' = s4)"
proof -
  obtain out s' where d: "do_get K tf cmd s = (out, s')" by (cases "do_get K tf cmd s")
  from do_get_snap_outcome [OF d assms] do_get_caller_only [OF d] d
  show ?thesis by (simp add: caller_only_def)
qed

theorem get_snap_rejected_witness:
  "fst (do_get ex_consts (ex_tf 0x40002 0 7 0) 0x40002 ex_state)
     = Proc_ret ((ex_tf 0x40002 0 7 0)\<lparr>trapno := 13, err := 0\<rparr>) 0
   \<and> procs (snd (do_get ex_consts (ex_tf 0x40002 0 7 0) 0x40002 ex_state)) 2 = procs ex_state 2"
proof -
  have m: "0x40002 AND SYS_SNAP ex_consts \<noteq> 0"
    by simp
  have r: "get_reaches_snap ex_consts (ex_tf 0x40002 0 7 0) 0x40002 ex_state
             = Some (spinlock_release 1 (spinlock_acquire 1 ex_state))"
    by (simp add: get_reaches_snap_def ex_get_child get_regs_def get_memop_def do_perm_def)
  have p: "cpu_proc (cur ex_state) = 1"
    by (simp add: ex_state_def)
  from get_snap_rejected [OF m, where tf = "ex_tf 0x40002 0 7 0" and s = ex_state] r p
  show ?thesis
    by (simp split: prod.splits)
qed


subsection \<open>The sentinel\<close>

lemma sentinel_inv_fields:
  assumes "sentinel_inv s"
    and "\<And>q. state (procs s' q) = state (procs s q) \<and> child (procs s' q) = child (procs s q)"
    and "nextpid s' = nextpid s"
  shows "sentinel_inv s'"
  using assms by (simp add: sentinel_inv_def)

lemma sentinel_inv_copy_frame:
  assumes "sentinel_inv s" and "copy_frame s s'"
  shows "sentinel_inv s'"
proof (rule sentinel_inv_fields [OF assms(1)])
  from assms(2) show "nextpid s' = nextpid s" by (simp add: copy_frame_def)
  fix q
  from assms(2) have "ctl (procs s' q) = ctl (procs s q)" by (simp add: copy_frame_def)
  from ctl_eq_fields [OF this]
  show "state (procs s' q) = state (procs s q) \<and> child (procs s' q) = child (procs s q)"
    by simp
qed

lemma sentinel_inv_pdir_step:
  assumes "sentinel_inv s" and "pdir_step c s s'"
  shows "sentinel_inv s'"
proof (rule sentinel_inv_fields [OF assms(1)])
  from assms(2) show "nextpid s' = nextpid s" by (simp add: pdir_step_def)
  fix q
  from assms(2) have o: "q \<noteq> c \<Longrightarrow> procs s' q = procs s q"
    and c: "(procs s' c)\<lparr>pdir := pdir (procs s c)\<rparr> = procs s c"
    by (simp_all add: pdir_step_def)
  from c have "state (procs s' c) = state (procs s c) \<and> child (procs s' c) = child (procs s c)"
    by (cases "procs s c", cases "procs s' c") simp
  with o show "state (procs s' q) = state (procs s q) \<and> child (procs s' q) = child (procs s q)"
    by (cases "q = c") simp_all
qed

lemma caller_only_fields:
  assumes "caller_only p s s'"
  shows "state (procs s' q) = state (procs s q) \<and> child (procs s' q) = child (procs s q)"
proof -
  from assms have o: "q \<noteq> p \<Longrightarrow> procs s' q = procs s q"
    and c: "(procs s' p)\<lparr>pdir := pdir (procs s p), lock := lock (procs s p)\<rparr> = procs s p"
    by (simp_all add: caller_only_def)
  from c have "state (procs s' p) = state (procs s p) \<and> child (procs s' p) = child (procs s p)"
    by (cases "procs s p", cases "procs s' p") simp
  with o show ?thesis by (cases "q = p") simp_all
qed

lemma sentinel_inv_caller_only:
  assumes "sentinel_inv s" and "caller_only p s s'"
  shows "sentinel_inv s'"
  using assms(1) caller_only_fields [OF assms(2)]
proof (rule sentinel_inv_fields)
  from assms(2) show "nextpid s' = nextpid s" by (simp add: caller_only_def)
qed

lemma put_child_sentinel_inv:
  assumes "sentinel_inv s"
  shows "put_child K tf s = Inl (out, s') \<Longrightarrow> sentinel_inv s'"
    and "put_child K tf s = Inr (cp, s') \<Longrightarrow> sentinel_inv s'"
  using assms
  by (auto simp: put_child_def Let_def spinlock_acquire_def spinlock_release_def proc_alloc_def
        sentinel_inv_def proc_null_def
      split: if_splits option.splits prod.splits)

lemma put_child_sentinel:
  assumes "sentinel_inv s"
  shows "put_child K tf s = Inl (out, s') \<Longrightarrow> sentinel_inv s'"
    and "put_child K tf s = Inr (cp, s') \<Longrightarrow> sentinel_inv s' \<and> cp \<noteq> proc_null"
proof -
  assume "put_child K tf s = Inl (out, s')"
  then show "sentinel_inv s'" by (rule put_child_sentinel_inv(1) [OF assms])
next
  assume r: "put_child K tf s = Inr (cp, s')"
  then have i: "sentinel_inv s'" by (rule put_child_sentinel_inv(2) [OF assms])
  from put_child_Inr [OF r]
  have "child (procs s' (cpu_proc (cur s))) (child_index tf) = Some cp" by simp
  with i have "cp \<noteq> proc_null" by (auto simp: sentinel_inv_def)
  with i show "sentinel_inv s' \<and> cp \<noteq> proc_null" by simp
qed

lemma put_tail_sentinel:
  assumes "sentinel_inv s" and "cp \<noteq> proc_null"
  shows "sentinel_inv (put_start K cmd cp (put_snap K cmd cp s))"
  using assms
  by (auto simp: put_start_def put_snap_def proc_ready_def set_rpdir_def log_pmap_def
        sentinel_inv_def)

lemma do_put_sentinel:
  assumes "sentinel_inv s" and "do_put K tf cmd s = (out, s')"
  shows "sentinel_inv s'"
  using assms(2)
proof (cases rule: do_put_cases)
  case head
  then show ?thesis by (rule put_child_sentinel(1) [OF assms(1)])
next
  case (regs cp s1)
  from put_child_sentinel(2) [OF assms(1) regs(1)] put_regs_Inl [OF regs(2)]
  show ?thesis by (auto intro: sentinel_inv_copy_frame)
next
  case (memop cp s1 s2)
  from put_child_sentinel(2) [OF assms(1) memop(1)] put_regs_frame [OF memop(2)]
    memop_Inl(1) [OF memop(3)]
  show ?thesis by (auto intro: sentinel_inv_copy_frame)
next
  case (perm cp s1 s2 s3)
  from put_child_sentinel(2) [OF assms(1) perm(1)] put_regs_frame [OF perm(2)]
  have "sentinel_inv s2" by (auto intro: sentinel_inv_copy_frame)
  from sentinel_inv_pdir_step [OF this put_memop_Inr [OF perm(3)]] do_perm_Inl [OF perm(4)]
  show ?thesis by simp
next
  case (complete cp s1 s2 s3 s4)
  from put_child_sentinel(2) [OF assms(1) complete(1)]
  have 1: "sentinel_inv s1" and ne: "cp \<noteq> proc_null" by simp_all
  from 1 put_regs_frame [OF complete(2)] have "sentinel_inv s2"
    by (rule sentinel_inv_copy_frame)
  from sentinel_inv_pdir_step [OF this put_memop_Inr [OF complete(3)]]
  have "sentinel_inv s3" .
  from sentinel_inv_pdir_step [OF this do_perm_Inr [OF complete(4)]]
  have "sentinel_inv s4" .
  from put_tail_sentinel [OF this ne] complete(5) show ?thesis by simp
qed

lemma do_cputs_sentinel:
  assumes "sentinel_inv s"
  shows "sentinel_inv (snd (do_cputs K tf cmd s))"
proof -
  let ?s0 = "s\<lparr>kbuf := replicate (unat (CPUTS_MAX K) + 1) 0\<rparr>"
  from assms have 0: "sentinel_inv ?s0" by (simp add: sentinel_inv_def)
  show ?thesis
  proof (cases "usercopy K tf False K_buf (ebx (regs tf)) (CPUTS_MAX K) ?s0")
    case (Inl r)
    obtain out s' where r: "r = (out, s')" by (cases r)
    from usercopy_Inl [OF Inl [unfolded r]] 0 have "sentinel_inv s'"
      by (auto intro: sentinel_inv_copy_frame)
    with Inl r show ?thesis by (simp add: do_cputs_def Let_def)
  next
    case (Inr s1)
    then have "s1 = moved False K_buf (ebx (regs tf)) (CPUTS_MAX K) (Some Sysrecover) ?s0"
      by (simp add: usercopy_Inr)
    with 0 have "sentinel_inv s1"
      by (auto intro: sentinel_inv_copy_frame moved_frame)
    with Inr show ?thesis
      by (simp add: do_cputs_def Let_def cprintf_s_def sentinel_inv_def)
  qed
qed

lemma syscall_sentinel:
  assumes "sentinel_inv s"
  shows "sentinel_inv (snd (syscall K tf s))"
proof -
  have "sentinel_inv (snd (do_put K tf cmd s))" for cmd
    using do_put_sentinel [OF assms, of K tf cmd] by (cases "do_put K tf cmd s") simp
  moreover have "sentinel_inv (snd (do_get K tf cmd s))" for cmd
    using sentinel_inv_caller_only [OF assms do_get_caller_only, of K tf cmd]
    by (cases "do_get K tf cmd s") simp
  ultimately show ?thesis
    using assms do_cputs_sentinel [OF assms]
    by (simp add: syscall_def Let_def do_ret_def)
qed

text \<open>
  C6. The sentinel is in state STOP, no one's child and never allocated; every system
  call keeps this so (first conjunct), so it is always in state STOP. A GET changes no
  child table and allocates nothing, whatever its slot holds; and when the slot named by
  the masked index is empty (the caller running on this CPU, as \<^verbatim>\<open>do_get\<close> asserts),
  the head of \<^verbatim>\<open>do_get\<close> resolves the child to \<^verbatim>\<open>proc_null\<close>, does not wait, and
  hands the sentinel to the steps that follow. The start of the sentinel in STOP and its
  absence from every child table are the specification's (\<^verbatim>\<open>kern/proc.c\<close> is not among
  the sources); that the calls keep it so is proved of the code.
\<close>

theorem get_empty_slot_sentinel:
  assumes "sentinel_inv s"
  shows "sentinel_inv (snd (syscall K tf s))
         \<and> (child (procs s (cpu_proc (cur s))) (child_index tf) = None \<longrightarrow>
              (case do_get K tf cmd s of
                 (out, s') \<Rightarrow>
                   (\<forall>q. child (procs s' q) = child (procs s q))
                   \<and> nextpid s' = nextpid s \<and> nomem s' = nomem s
                   \<and> sentinel_inv s')
              \<and> (state (procs s (cpu_proc (cur s))) = PROC_RUN
                   \<and> runcpu (procs s (cpu_proc (cur s))) = Some (cpu_id (cur s)) \<longrightarrow>
                  get_child tf s
                    = Inr (proc_null,
                           spinlock_release (cpu_proc (cur s))
                             (spinlock_acquire (cpu_proc (cur s)) s))))"
proof (intro conjI impI)
  show "sentinel_inv (snd (syscall K tf s))"
    by (rule syscall_sentinel [OF assms])
next
  obtain out s' where d: "do_get K tf cmd s = (out, s')" by (cases "do_get K tf cmd s")
  note c = do_get_caller_only [OF d]
  from c caller_only_fields [OF c] sentinel_inv_caller_only [OF assms c] d
  show "case do_get K tf cmd s of
                 (out, s') \<Rightarrow>
                   (\<forall>q. child (procs s' q) = child (procs s q))
                   \<and> nextpid s' = nextpid s \<and> nomem s' = nomem s
                   \<and> sentinel_inv s'"
    by (simp add: caller_only_def)
next
  assume e: "child (procs s (cpu_proc (cur s))) (child_index tf) = None"
    and a: "state (procs s (cpu_proc (cur s))) = PROC_RUN
              \<and> runcpu (procs s (cpu_proc (cur s))) = Some (cpu_id (cur s))"
  from a assms have "cpu_proc (cur s) \<noteq> proc_null"
    by (auto simp: sentinel_inv_def)
  with e a assms
  show "get_child tf s
          = Inr (proc_null,
                 spinlock_release (cpu_proc (cur s)) (spinlock_acquire (cpu_proc (cur s)) s))"
    by (simp add: get_child_def Let_def spinlock_acquire_def sentinel_inv_def)
qed

lemma ex_sentinel_inv: "sentinel_inv ex_state"
  by (simp add: sentinel_inv_def ex_state_def ex_proc_def proc_null_def)

theorem get_empty_slot_sentinel_witness:
  "get_child (ex_tf 2 0 3 0) ex_state
     = Inr (proc_null, spinlock_release 1 (spinlock_acquire 1 ex_state))
   \<and> nextpid (snd (do_get ex_consts (ex_tf 2 0 3 0) 2 ex_state)) = 3
   \<and> child (procs (snd (do_get ex_consts (ex_tf 2 0 3 0) 2 ex_state)) 1) 3 = None
   \<and> state (procs (snd (syscall ex_consts (ex_tf 2 0 3 0) ex_state)) proc_null) = PROC_STOP"
proof -
  have e: "child (procs ex_state (cpu_proc (cur ex_state))) (child_index (ex_tf 2 0 3 0)) = None"
    "state (procs ex_state (cpu_proc (cur ex_state))) = PROC_RUN"
    "runcpu (procs ex_state (cpu_proc (cur ex_state))) = Some (cpu_id (cur ex_state))"
    "cpu_proc (cur ex_state) = 1" "nextpid ex_state = 3" "child (procs ex_state 1) 3 = None"
    by (simp_all add: ex_state_def child_index_def)
  from get_empty_slot_sentinel [OF ex_sentinel_inv, of ex_consts "ex_tf 2 0 3 0" 2] e
  show ?thesis
    by (simp add: sentinel_inv_def split: prod.splits)
qed


subsection \<open>SNAP\<close>

lemma pdir_step_fields:
  assumes "pdir_step c s s'"
  shows "child (procs s' q) = child (procs s q) \<and> state (procs s' q) = state (procs s q)
         \<and> rpdir (procs s' q) = rpdir (procs s q) \<and> sv (procs s' q) = sv (procs s q)"
proof -
  from assms have o: "q \<noteq> c \<Longrightarrow> procs s' q = procs s q"
    and c: "(procs s' c)\<lparr>pdir := pdir (procs s c)\<rparr> = procs s c"
    by (simp_all add: pdir_step_def)
  from c have "child (procs s' c) = child (procs s c) \<and> state (procs s' c) = state (procs s c)
         \<and> rpdir (procs s' c) = rpdir (procs s c) \<and> sv (procs s' c) = sv (procs s c)"
    by (cases "procs s c", cases "procs s' c") simp
  with o show ?thesis by (cases "q = c") simp_all
qed

lemma copy_frame_child: "copy_frame s s' \<Longrightarrow> child (procs s' q) = child (procs s q)"
proof -
  assume "copy_frame s s'"
  then have "ctl (procs s' q) = ctl (procs s q)" by (simp add: copy_frame_def)
  from ctl_eq_fields [OF this] show ?thesis by simp
qed

lemma put_tail_maps:
  assumes "cmd AND SYS_SNAP K \<noteq> 0"
  shows "rpdir (procs (put_start K cmd cp (put_snap K cmd cp s)) cp)
           = pmap_copy (pdir (procs s cp)) (VM_USERLO K) (rpdir (procs s cp)) (VM_USERLO K)
               (VM_USERHI K - VM_USERLO K)"
    and "pdir (procs (put_start K cmd cp (put_snap K cmd cp s)) cp) = pdir (procs s cp)"
  using assms
  by (simp_all add: put_start_def put_snap_def proc_ready_def set_rpdir_def log_pmap_def)

lemma put_tail_child:
  "child (procs (put_start K cmd cp (put_snap K cmd cp s)) q) = child (procs s q)"
  by (simp add: put_start_def put_snap_def proc_ready_def set_rpdir_def log_pmap_def)

lemma pmap_copy_whole:
  assumes "lo \<le> va" and "va < hi"
  shows "pmap_copy spd lo dpd lo (hi - lo) va = spd va"
proof -
  from assms have "lo \<le> hi" by simp
  with assms have "unat (va - lo) = unat va - unat lo" "unat (hi - lo) = unat hi - unat lo"
    by (simp_all add: unat_sub)
  with assms have "va - lo < hi - lo"
    by (simp add: word_less_nat_alt word_le_nat_alt)
  then show ?thesis by (simp add: pmap_copy_def)
qed

lemma put_child_slot:
  assumes "put_child K tf s = Inr (cp, s1)"
    and "child (procs s (cpu_proc (cur s))) (child_index tf) = Some cp'"
  shows "cp = cp' \<and> pdir (procs s1 cp) = pdir (procs s cp)"
  using assms
  by (auto simp: put_child_def Let_def spinlock_acquire_def spinlock_release_def
      split: if_splits)

lemma copy_frame_pdir: "copy_frame s s' \<Longrightarrow> pdir (procs s' q) = pdir (procs s q)"
proof -
  assume "copy_frame s s'"
  then have "ctl (procs s' q) = ctl (procs s q)" by (simp add: copy_frame_def)
  from ctl_eq_fields [OF this] show ?thesis by simp
qed

lemma put_memop_none: "cmd AND SYS_MEMOP K = 0 \<Longrightarrow> put_memop K tf cmd p cp s = Inr s"
  by (simp add: put_memop_def)

lemma do_perm_none: "cmd AND SYS_PERM K = 0 \<Longrightarrow> do_perm K tf cmd c msg s = Inr s"
  by (simp add: do_perm_def)

text \<open>
  C8. Let a PUT with the SNAP bit set return to its caller. Then \<^verbatim>\<open>do_put\<close> has
  arrived at its SNAP step, with the child \<open>cp\<close> of the slot named by the call and in a
  state \<open>s4\<close>, and after the call: the child's page map \<open>pdir\<close> is the one it had in
  \<open>s4\<close> (the snapshot leaves it alone); at every address of \<open>[USERLO, USERHI)\<close>, hence on
  every page of the user range, the child's reference page map \<open>rpdir\<close> is that page
  map, as it was in \<open>s4\<close> and as it is now. When the call asks for no memory operation
  and no change of permissions and the slot held the child already, the page map
  snapshotted is the one the child had before the call. What \<^verbatim>\<open>pmap_copy\<close> does is
  the specification's.
\<close>

theorem put_snap_baseline:
  assumes "do_put K tf cmd s = (Trap_return tf', s')" and "cmd AND SYS_SNAP K \<noteq> 0"
  shows "\<exists>cp s4. put_reaches_snap K tf cmd s = Some (cp, s4)
           \<and> child (procs s' (cpu_proc (cur s))) (child_index tf) = Some cp
           \<and> pdir (procs s' cp) = pdir (procs s4 cp)
           \<and> (\<forall>va. VM_USERLO K \<le> va \<and> va < VM_USERHI K \<longrightarrow>
                  rpdir (procs s' cp) va = pdir (procs s4 cp) va
                  \<and> rpdir (procs s' cp) va = pdir (procs s' cp) va)
           \<and> (cmd AND SYS_MEMOP K = 0 \<and> cmd AND SYS_PERM K = 0
                \<and> child (procs s (cpu_proc (cur s))) (child_index tf) = Some cp
              \<longrightarrow> pdir (procs s4 cp) = pdir (procs s cp))"
  using assms(1)
proof (cases rule: do_put_cases)
  case head
  from put_child_Inl [OF head] show ?thesis by (simp add: returns_normally_def)
next
  case (regs cp s1)
  from put_regs_Inl [OF regs(2)] show ?thesis by (simp add: returns_normally_def)
next
  case (memop cp s1 s2)
  from memop_Inl(1) [OF memop(3)] show ?thesis by simp
next
  case (perm cp s1 s2 s3)
  from do_perm_Inl [OF perm(4)] show ?thesis by (simp add: returns_normally_def)
next
  case (complete cp s1 s2 s3 s4)
  let ?p = "cpu_proc (cur s)"
  have r: "put_reaches_snap K tf cmd s = Some (cp, s4)"
    by (simp add: put_reaches_snap_def complete(1-4))
  from put_child_Inr [OF complete(1)]
  have "child (procs s1 ?p) (child_index tf) = Some cp" by simp
  with copy_frame_child [OF put_regs_frame [OF complete(2)], of ?p]
    pdir_step_fields [OF put_memop_Inr [OF complete(3)], of ?p]
    pdir_step_fields [OF do_perm_Inr [OF complete(4)], of ?p]
  have c: "child (procs s' ?p) (child_index tf) = Some cp"
    by (simp add: complete(5) put_tail_child)
  have k: "pdir (procs s' cp) = pdir (procs s4 cp)"
    by (simp add: complete(5) put_tail_maps(2) [OF assms(2)])
  have v: "rpdir (procs s' cp) va = pdir (procs s4 cp) va"
    if "VM_USERLO K \<le> va" "va < VM_USERHI K" for va
    using that by (simp add: complete(5) put_tail_maps(1) [OF assms(2)] pmap_copy_whole)
  have b: "pdir (procs s4 cp) = pdir (procs s cp)"
    if n: "cmd AND SYS_MEMOP K = 0" "cmd AND SYS_PERM K = 0"
      and o: "child (procs s ?p) (child_index tf) = Some cp"
  proof -
    from complete(3,4) n have "s3 = s2" "s4 = s3"
      by (simp_all add: put_memop_none do_perm_none)
    with copy_frame_pdir [OF put_regs_frame [OF complete(2)], of cp]
      put_child_slot [OF complete(1) o]
    show ?thesis by simp
  qed
  from r c k v b show ?thesis
    by (intro exI [of _ cp] exI [of _ s4]) simp
qed

lemma ex_put_snap:
  "do_put ex_consts (ex_tf 0x40001 0 7 0) 0x40001 ex_state
     = (Trap_return (ex_tf 0x40001 0 7 0),
        put_start ex_consts 0x40001 2
          (put_snap ex_consts 0x40001 2 (spinlock_release 1 (spinlock_acquire 1 ex_state))))"
  by (simp add: do_put_def ex_put_child put_regs_def put_memop_def do_perm_def)

theorem put_snap_baseline_witness:
  "pdir (procs ex_state 2) 0x40000000 = \<lparr>frame = Some 5, perm = 0x600\<rparr>
   \<and> rpdir (procs ex_state 2) 0x40000000 = \<lparr>frame = None, perm = 0\<rparr>
   \<and> rpdir (procs (snd (do_put ex_consts (ex_tf 0x40001 0 7 0) 0x40001 ex_state)) 2) 0x40000000
       = \<lparr>frame = Some 5, perm = 0x600\<rparr>
   \<and> pdir (procs (snd (do_put ex_consts (ex_tf 0x40001 0 7 0) 0x40001 ex_state)) 2)
       = pdir (procs ex_state 2)"
proof -
  let ?r = "do_put ex_consts (ex_tf 0x40001 0 7 0) 0x40001 ex_state"
  have c: "child (procs (snd ?r) 1) 7 = Some 2"
    unfolding ex_put_snap snd_conv put_tail_child
    by (simp add: spinlock_release_def spinlock_acquire_def ex_state_def)
  have d: "?r = (Trap_return (ex_tf 0x40001 0 7 0), snd ?r)"
    by (simp add: ex_put_snap)
  have m: "0x40001 AND SYS_SNAP ex_consts \<noteq> 0" "0x40001 AND SYS_MEMOP ex_consts = 0"
    "0x40001 AND SYS_PERM ex_consts = 0"
    by simp_all
  have e: "cpu_proc (cur ex_state) = 1" "child_index (ex_tf 0x40001 0 7 0) = 7"
    "VM_USERLO ex_consts \<le> 0x40000000" "0x40000000 < VM_USERHI ex_consts"
    "child (procs ex_state 1) 7 = Some 2"
    by (simp_all add: ex_state_def child_index_def)
  have b: "pdir (procs ex_state 2) 0x40000000 = \<lparr>frame = Some 5, perm = 0x600\<rparr>"
    "rpdir (procs ex_state 2) 0x40000000 = \<lparr>frame = None, perm = 0\<rparr>"
    by (simp_all add: ex_state_def ex_proc_def ex_pdir_def no_map_def)
  from put_snap_baseline [OF d m(1)] obtain cp s4
    where f: "put_reaches_snap ex_consts (ex_tf 0x40001 0 7 0) 0x40001 ex_state = Some (cp, s4)
      \<and> child (procs (snd ?r) (cpu_proc (cur ex_state))) (child_index (ex_tf 0x40001 0 7 0))
          = Some cp
      \<and> pdir (procs (snd ?r) cp) = pdir (procs s4 cp)
      \<and> (\<forall>va. VM_USERLO ex_consts \<le> va \<and> va < VM_USERHI ex_consts \<longrightarrow>
              rpdir (procs (snd ?r) cp) va = pdir (procs s4 cp) va
              \<and> rpdir (procs (snd ?r) cp) va = pdir (procs (snd ?r) cp) va)
      \<and> (0x40001 AND SYS_MEMOP ex_consts = 0 \<and> 0x40001 AND SYS_PERM ex_consts = 0
            \<and> child (procs ex_state (cpu_proc (cur ex_state)))
                (child_index (ex_tf 0x40001 0 7 0)) = Some cp
          \<longrightarrow> pdir (procs s4 cp) = pdir (procs ex_state cp))"
    by (elim exE) (erule that)
  from f c have cp: "cp = 2" by (simp add: e(1,2))
  from f m(2,3) e(5) have 5: "pdir (procs s4 2) = pdir (procs ex_state 2)"
    by (simp add: cp e(1,2))
  from f have 2: "pdir (procs (snd ?r) 2) = pdir (procs s4 2)"
    by (simp add: cp)
  from f have "VM_USERLO ex_consts \<le> 0x40000000 \<and> 0x40000000 < VM_USERHI ex_consts \<longrightarrow>
      rpdir (procs (snd ?r) 2) 0x40000000 = pdir (procs s4 2) 0x40000000"
    unfolding cp by blast
  with e(3,4) have "rpdir (procs (snd ?r) 2) 0x40000000 = pdir (procs s4 2) 0x40000000"
    by blast
  with 2 5 b show ?thesis by (simp add: cp)
qed

subsection \<open>The events of a call, and a PUT of registers in the example state\<close>

lemma pdir_step_events: "pdir_step c s s' \<Longrightarrow> \<exists>es. events s' = events s @ es"
  by (simp add: pdir_step_def)

lemma put_tail_events:
  "\<exists>es. events (put_start K cmd cp (put_snap K cmd cp s)) = events s @ es"
  by (simp add: put_start_def put_snap_def proc_ready_def set_rpdir_def log_pmap_def)

lemma take2_events:
  "evs = pre @ [e1, e2] @ later \<Longrightarrow> take 2 (drop (length pre) evs) = [e1, e2]"
  by simp

lemma ex_all_accessible:
  assumes "umem s = ex_umem" and "unat sz \<le> 0x1000"
  shows "all_accessible s 0x40000000 sz"
proof -
  have "ex_umem (0x40000000 + of_nat i) \<noteq> None" if "i < unat sz" for i
  proof -
    from that assms(2) have "i < 0x1000" by simp
    then have "(of_nat i :: u32) < 0x1000"
      by (simp add: word_less_nat_alt unat_of_nat)
    then show ?thesis by (simp add: ex_umem_def)
  qed
  with assms(1) show ?thesis
    by (auto simp: all_accessible_def uaddrs_def list_all_iff)
qed

lemma ex_put_regs:
  "do_put ex_consts (ex_tf 0x1001 0x40000000 7 0) 0x1001 ex_state
     = (Trap_return (ex_tf 0x1001 0x40000000 7 0),
        put_regs_done ex_consts (ex_tf 0x1001 0x40000000 7 0) 0x1001 2
          (spinlock_release 1 (spinlock_acquire 1 ex_state)))"
proof -
  let ?s1 = "spinlock_release 1 (spinlock_acquire 1 ex_state)"
  have u: "umem ?s1 = ex_umem" "recover (cur ?s1) = None"
    by (simp_all add: spinlock_release_def spinlock_acquire_def ex_state_def)
  have l: "regs_len ex_consts 0x1001 = 80"
    by (simp add: regs_len_def)
  have a: "all_accessible ?s1 0x40000000 80"
    by (rule ex_all_accessible [OF u(1)]) simp
  have c: "\<not> checkva_bad ex_consts 0x40000000 80"
    by (simp add: checkva_bad_def)
  have "put_regs ex_consts (ex_tf 0x1001 0x40000000 7 0) 0x1001 2 ?s1
          = Inr (put_regs_done ex_consts (ex_tf 0x1001 0x40000000 7 0) 0x1001 2 ?s1)"
    using u a c l by (simp add: put_regs_Inr)
  then show ?thesis
    by (simp add: do_put_def ex_put_child put_memop_def do_perm_def put_start_def put_snap_def)
qed


subsection \<open>The forced rewrite of PUT\<close>

lemma length_st16 [simp]: "length (st16 off v img) = length img"
  by (simp add: st16_def)

lemma length_st32 [simp]: "length (st32 off v img) = length img"
  by (simp add: st32_def)

lemma length_sv_force [simp]: "length (sv_force K img) = length img"
  by (simp add: sv_force_def Let_def)

lemma ld16_bytes: "ld16 off (img[off := ucast v, off + 1 := ucast (drop_bit 8 v)]) = v"
  if "off + 1 < length img" for v :: u16
proof -
  have "(ucast (ucast v :: u8) :: u16) OR push_bit 8 (ucast (ucast (drop_bit 8 v) :: u8)) = v"
    by (rule bit_word_eqI) (auto simp: bit_simps)
  with that show ?thesis by (simp add: ld16_def)
qed

lemma ld32_bytes:
  "ld32 off (img[off := ucast v, off + 1 := ucast (drop_bit 8 v),
                 off + 2 := ucast (drop_bit 16 v), off + 3 := ucast (drop_bit 24 v)]) = v"
  if "off + 3 < length img" for v :: u32
proof -
  have "(ucast (ucast v :: u8) :: u32) OR push_bit 8 (ucast (ucast (drop_bit 8 v) :: u8))
          OR push_bit 16 (ucast (ucast (drop_bit 16 v) :: u8))
          OR push_bit 24 (ucast (ucast (drop_bit 24 v) :: u8)) = v"
    apply (rule bit_word_eqI)
    apply (auto simp: bit_simps)
    subgoal for n by (cases "n < 24") simp_all
    done
  with that show ?thesis by (simp add: ld32_def)
qed


lemma nth_st16:
  "off + 1 < length img \<Longrightarrow>
     st16 off v img ! i
       = (if i = off then ucast v else if i = off + 1 then ucast (drop_bit 8 v) else img ! i)"
  by (simp add: st16_def nth_list_update)

lemma nth_st32:
  "off + 3 < length img \<Longrightarrow>
     st32 off v img ! i
       = (if i = off then ucast v else if i = off + 1 then ucast (drop_bit 8 v)
          else if i = off + 2 then ucast (drop_bit 16 v)
          else if i = off + 3 then ucast (drop_bit 24 v) else img ! i)"
  by (simp add: st32_def nth_list_update)

lemma ld16_st16: "off + 1 < length img \<Longrightarrow> ld16 off (st16 off v img) = v"
  unfolding st16_def by (rule ld16_bytes)

lemma ld32_st32: "off + 3 < length img \<Longrightarrow> ld32 off (st32 off v img) = v"
  unfolding st32_def by (rule ld32_bytes)

lemma ld32_cong: "(\<And>j. j < 4 \<Longrightarrow> a ! (off + j) = b ! (off + j)) \<Longrightarrow> ld32 off a = ld32 off b"
proof -
  assume h: "\<And>j. j < 4 \<Longrightarrow> a ! (off + j) = b ! (off + j)"
  from h [of 0] h [of 1] h [of 2] h [of 3] show ?thesis by (simp add: ld32_def)
qed

lemma ld16_cong: "(\<And>j. j < 2 \<Longrightarrow> a ! (off + j) = b ! (off + j)) \<Longrightarrow> ld16 off a = ld16 off b"
proof -
  assume h: "\<And>j. j < 2 \<Longrightarrow> a ! (off + j) = b ! (off + j)"
  from h [of 0] h [of 1] show ?thesis by (simp add: ld16_def)
qed

lemma layout_okD:
  assumes "layout_ok K" and "unat (offsetof_fx K) \<le> length img"
  shows "distinct (rewritten K)" and "\<forall>i\<in>set (rewritten K). i < length img"
  using assms by (auto simp: layout_ok_def list_all_iff)

lemma sv_force_eq:
  assumes "layout_ok K" and "unat (offsetof_fx K) \<le> length img"
  shows "sv_force K img =
           st32 (off_eflags K) ((ld32 (off_eflags K) img AND FL_USER K) OR FL_IF K)
             (st16 (off_ss K) (CPU_GDT_UDATA K OR 3)
               (st16 (off_cs K) (CPU_GDT_UCODE K OR 3)
                 (st16 (off_es K) (CPU_GDT_UDATA K OR 3)
                   (st16 (off_ds K) (CPU_GDT_UDATA K OR 3) img))))"
proof -
  let ?i4 = "st16 (off_ss K) (CPU_GDT_UDATA K OR 3)
               (st16 (off_cs K) (CPU_GDT_UCODE K OR 3)
                 (st16 (off_es K) (CPU_GDT_UDATA K OR 3)
                   (st16 (off_ds K) (CPU_GDT_UDATA K OR 3) img)))"
  let ?e = "off_eflags K"
  note d = layout_okD [OF assms]
  from d have e: "?e + 3 < length ?i4"
    by (simp add: rewritten_def)
  have 1: "ld32 ?e ?i4 = ld32 ?e img"
    using d by (intro ld32_cong) (auto simp: rewritten_def nth_st16 less_Suc_eq numeral_eq_Suc)
  have "st32 ?e v (st32 ?e w ?i4) = st32 ?e v ?i4" for v w
    by (simp add: st32_def list_update_swap)
  with 1 e show ?thesis
    by (simp add: sv_force_def Let_def ld32_st32)
qed


lemma sv_force_selectors:
  assumes "layout_ok K" and "unat (offsetof_fx K) \<le> length img"
  shows "ld16 (off_ds K) (sv_force K img) = CPU_GDT_UDATA K OR 3"
    and "ld16 (off_es K) (sv_force K img) = CPU_GDT_UDATA K OR 3"
    and "ld16 (off_cs K) (sv_force K img) = CPU_GDT_UCODE K OR 3"
    and "ld16 (off_ss K) (sv_force K img) = CPU_GDT_UDATA K OR 3"
proof -
  note d = layout_okD [OF assms]
  let ?u = "CPU_GDT_UDATA K OR 3" and ?c = "CPU_GDT_UCODE K OR 3"
  let ?f = "(ld32 (off_eflags K) img AND FL_USER K) OR FL_IF K"
  have "ld16 (off_ds K) (sv_force K img) = ld16 (off_ds K) (st16 (off_ds K) ?u img)"
    unfolding sv_force_eq [OF assms] using d
    by (intro ld16_cong) (auto simp: rewritten_def nth_st16 nth_st32 less_Suc_eq numeral_eq_Suc)
  with d show "ld16 (off_ds K) (sv_force K img) = ?u"
    by (simp add: ld16_st16 rewritten_def)
  have "ld16 (off_es K) (sv_force K img)
          = ld16 (off_es K) (st16 (off_es K) ?u (st16 (off_ds K) ?u img))"
    unfolding sv_force_eq [OF assms] using d
    by (intro ld16_cong) (auto simp: rewritten_def nth_st16 nth_st32 less_Suc_eq numeral_eq_Suc)
  with d show "ld16 (off_es K) (sv_force K img) = ?u"
    by (simp add: ld16_st16 rewritten_def)
  have "ld16 (off_cs K) (sv_force K img)
          = ld16 (off_cs K) (st16 (off_cs K) ?c (st16 (off_es K) ?u (st16 (off_ds K) ?u img)))"
    unfolding sv_force_eq [OF assms] using d
    by (intro ld16_cong) (auto simp: rewritten_def nth_st16 nth_st32 less_Suc_eq numeral_eq_Suc)
  with d show "ld16 (off_cs K) (sv_force K img) = ?c"
    by (simp add: ld16_st16 rewritten_def)
  have "ld16 (off_ss K) (sv_force K img)
          = ld16 (off_ss K) (st16 (off_ss K) ?u
              (st16 (off_cs K) ?c (st16 (off_es K) ?u (st16 (off_ds K) ?u img))))"
    unfolding sv_force_eq [OF assms] using d
    by (intro ld16_cong) (auto simp: rewritten_def nth_st16 nth_st32 less_Suc_eq numeral_eq_Suc)
  with d show "ld16 (off_ss K) (sv_force K img) = ?u"
    by (simp add: ld16_st16 rewritten_def)
qed

lemma sv_force_eflags:
  assumes "layout_ok K" and "unat (offsetof_fx K) \<le> length img"
  shows "ld32 (off_eflags K) (sv_force K img)
           = (ld32 (off_eflags K) img AND FL_USER K) OR FL_IF K"
  unfolding sv_force_eq [OF assms] using layout_okD [OF assms]
  by (simp add: ld32_st32 rewritten_def)

lemma sv_force_other:
  assumes "layout_ok K" and "unat (offsetof_fx K) \<le> length img"
    and "i \<notin> set (rewritten K)"
  shows "sv_force K img ! i = img ! i"
  unfolding sv_force_eq [OF assms(1,2)] using layout_okD [OF assms(1,2)] assms(3)
  by (simp add: rewritten_def nth_st16 nth_st32)

lemma st16_append: "off + 1 < length a \<Longrightarrow> st16 off v (a @ b) = st16 off v a @ b"
  by (simp add: st16_def list_update_append)

lemma st32_append: "off + 3 < length a \<Longrightarrow> st32 off v (a @ b) = st32 off v a @ b"
  by (simp add: st32_def list_update_append)

lemma ld32_append: "off + 3 < length a \<Longrightarrow> ld32 off (a @ b) = ld32 off a"
  by (simp add: ld32_def nth_append)

lemma sv_force_append:
  assumes "layout_ok K" and "unat (offsetof_fx K) \<le> length img"
  shows "sv_force K (img @ rest) = sv_force K img @ rest"
proof -
  from assms have l: "unat (offsetof_fx K) \<le> length (img @ rest)" by simp
  show ?thesis
    unfolding sv_force_eq [OF assms] sv_force_eq [OF assms(1) l]
    using layout_okD [OF assms]
    by (simp add: rewritten_def st16_append st32_append ld32_append)
qed


subsection \<open>PUT of registers, then GET\<close>

lemma distinct_uaddrs: "distinct (uaddrs uva sz)"
proof -
  have "inj_on (\<lambda>i. uva + (of_nat i :: u32)) {0 ..< unat sz}"
  proof (rule inj_onI)
    fix i j
    assume i: "i \<in> {0 ..< unat sz}" and j: "j \<in> {0 ..< unat sz}"
      and e: "uva + (of_nat i :: u32) = uva + of_nat j"
    have "unat sz < 2 ^ 32" using unsigned_less [of sz] by simp
    with i j have "i < 2 ^ 32" "j < 2 ^ 32" by simp_all
    moreover from e have "unat (of_nat i :: u32) = unat (of_nat j :: u32)" by simp
    ultimately show "i = j"
      by (simp add: unat_of_nat)
  qed
  then show ?thesis
    by (simp add: uaddrs_def distinct_map)
qed

lemma map_upds_lookup:
  "distinct xs \<Longrightarrow> length xs \<le> length ys \<Longrightarrow>
     map (\<lambda>x. the ((m(xs [\<mapsto>] ys)) x)) xs = take (length xs) ys"
proof (induction xs arbitrary: m ys)
  case Nil
  then show ?case by simp
next
  case (Cons x xs)
  then obtain y ys' where ys: "ys = y # ys'" by (cases ys) auto
  from Cons.prems have "x \<notin> set xs" by simp
  then have "(m(x \<mapsto> y, xs [\<mapsto>] ys')) x = Some y"
    by simp
  moreover from Cons.prems ys
  have "map (\<lambda>z. the ((m(x \<mapsto> y, xs [\<mapsto>] ys')) z)) xs = take (length xs) ys'"
    by (intro Cons.IH) simp_all
  ultimately show ?case by (simp add: ys)
qed

lemma ubytes_moved_out:
  assumes "unat sz \<le> length (kload k s)"
  shows "ubytes (moved True k uva sz g s) uva sz = take (unat sz) (kload k s)"
  using map_upds_lookup [OF distinct_uaddrs, of uva sz "kload k s" "umem s"] assms
  by (simp add: ubytes_def moved_def)


lemma ubytes_umem: "umem s = umem t \<Longrightarrow> ubytes s uva sz = ubytes t uva sz"
  by (simp add: ubytes_def)

lemma regs_len_bounds:
  assumes "layout_ok K"
  shows "unat (offsetof_fx K) \<le> unat (regs_len K cmd)"
    and "unat (regs_len K cmd) \<le> unat (sizeof_procstate K)"
  using assms by (auto simp: layout_ok_def regs_len_def word_le_nat_alt)

lemma get_child_slot:
  assumes "get_child tf t = Inr (cp', t1)"
    and "child (procs t (cpu_proc (cur t))) (child_index tf) = Some cp"
  shows "cp' = cp \<and> sv (procs t1 cp) = sv (procs t cp) \<and> umem t1 = umem t"
  using assms
  by (auto simp: get_child_def Let_def spinlock_acquire_def spinlock_release_def
      split: if_splits)

lemma do_get_regs_result:
  assumes "do_get K tf cmd t = (Trap_return tf', t')" and "cmd AND SYS_REGS K \<noteq> 0"
    and "child (procs t (cpu_proc (cur t))) (child_index tf) = Some cp"
    and "unat (regs_len K cmd) \<le> length (sv (procs t cp))"
  shows "ubytes t' (ebx (regs tf)) (regs_len K cmd)
           = take (unat (regs_len K cmd)) (sv (procs t cp))"
  using assms(1)
proof (cases rule: do_get_cases)
  case head
  from get_child_Inl [OF head] show ?thesis by (simp add: returns_normally_def)
next
  case (regs cp s1)
  from get_regs_Inl [OF regs(2)] show ?thesis by (simp add: returns_normally_def)
next
  case (memop cp s1 s2)
  from memop_Inl(2) [OF memop(3)] show ?thesis by simp
next
  case (perm cp s1 s2 s3)
  from do_perm_Inl [OF perm(4)] show ?thesis by (simp add: returns_normally_def)
next
  case (snap cp s1 s2 s3)
  then show ?thesis by simp
next
  case (complete cp' s1 s2 s3)
  let ?a = "ebx (regs tf)" and ?n = "regs_len K cmd"
  from get_child_slot [OF complete(1) assms(3)]
  have cp: "cp' = cp" and sv1: "sv (procs s1 cp) = sv (procs t cp)" by simp_all
  from complete(2) assms(2) have s2: "s2 = get_regs_done K tf cmd cp s1"
    by (simp add: get_regs_Inr cp)
  from assms(4) sv1 have "unat ?n \<le> length (kload (K_sv cp)
          (moved True (K_sv cp) ?a ?n (Some Sysrecover) s1))"
    by (simp add: kload_def)
  from ubytes_moved_out [OF this] sv1
  have "ubytes s2 ?a ?n = take (unat ?n) (sv (procs t cp))"
    by (simp add: s2 get_regs_done_def Let_def kload_def)
  moreover from get_memop_Inr [OF complete(3)] do_perm_Inr [OF complete(4)]
  have "umem t' = umem s2" by (simp add: pdir_step_def)
  ultimately show ?thesis
    using ubytes_umem [of t' s2 ?a ?n] by simp
qed

lemma put_child_sized:
  assumes "sv_sized K s" and "put_child K tf s = Inr (cp, s1)"
  shows "sv_sized K s1"
  using assms
  by (auto simp: put_child_def Let_def spinlock_acquire_def spinlock_release_def proc_alloc_def
        sv_sized_def
      split: if_splits option.splits prod.splits)

lemma sv_put_regs_done:
  assumes "layout_ok K" and "length (sv (procs s cp)) = unat (sizeof_procstate K)"
  shows "sv (procs (put_regs_done K tf cmd cp s) cp)
           = sv_force K (ubytes s (ebx (regs tf)) (regs_len K cmd))
               @ drop (unat (regs_len K cmd)) (sv (procs s cp))"
proof -
  let ?a = "ebx (regs tf)" and ?n = "regs_len K cmd"
  let ?X = "ubytes s ?a ?n"
  have "sv (procs (put_regs_done K tf cmd cp s) cp)
          = sv_force K (?X @ drop (unat ?n) (sv (procs s cp)))"
    by (simp add: put_regs_done_def Let_def moved_def kstore_def kload_def ubytes_def)
  also have "\<dots> = sv_force K ?X @ drop (unat ?n) (sv (procs s cp))"
    using regs_len_bounds(1) [OF assms(1), of cmd]
    by (intro sv_force_append [OF assms(1)]) simp
  finally show ?thesis .
qed

lemma put_tail_sv: "sv (procs (put_start K cmd cp (put_snap K cmd cp s)) q) = sv (procs s q)"
  by (simp add: put_start_def put_snap_def proc_ready_def set_rpdir_def log_pmap_def)

lemma do_put_regs_result:
  assumes "do_put K tf cmd s = (Trap_return tf', s')" and "cmd AND SYS_REGS K \<noteq> 0"
    and "sv_sized K s" and "layout_ok K"
  shows "\<exists>cp. child (procs s' (cpu_proc (cur s))) (child_index tf) = Some cp
           \<and> length (sv (procs s' cp)) = unat (sizeof_procstate K)
           \<and> take (unat (regs_len K cmd)) (sv (procs s' cp))
               = sv_force K (ubytes s (ebx (regs tf)) (regs_len K cmd))"
  using assms(1)
proof (cases rule: do_put_cases)
  case head
  from put_child_Inl [OF head] show ?thesis by (simp add: returns_normally_def)
next
  case (regs cp s1)
  from put_regs_Inl [OF regs(2)] show ?thesis by (simp add: returns_normally_def)
next
  case (memop cp s1 s2)
  from memop_Inl(1) [OF memop(3)] show ?thesis by simp
next
  case (perm cp s1 s2 s3)
  from do_perm_Inl [OF perm(4)] show ?thesis by (simp add: returns_normally_def)
next
  case (complete cp s1 s2 s3 s4)
  let ?p = "cpu_proc (cur s)" and ?a = "ebx (regs tf)" and ?n = "regs_len K cmd"
  note c = put_child_Inr [OF complete(1)]
  from put_child_sized [OF assms(3) complete(1)]
  have l1: "length (sv (procs s1 cp)) = unat (sizeof_procstate K)"
    by (simp add: sv_sized_def)
  from complete(2) assms(2) have s2: "s2 = put_regs_done K tf cmd cp s1"
    by (simp add: put_regs_Inr)
  from c have x: "ubytes s1 ?a ?n = ubytes s ?a ?n"
    by (intro ubytes_umem) simp
  have sv2: "sv (procs s2 cp) = sv_force K (ubytes s ?a ?n) @ drop (unat ?n) (sv (procs s1 cp))"
    unfolding s2 sv_put_regs_done [OF assms(4) l1] x ..
  have sv': "sv (procs s' cp) = sv (procs s2 cp)"
    using pdir_step_fields [OF put_memop_Inr [OF complete(3)], of cp]
      pdir_step_fields [OF do_perm_Inr [OF complete(4)], of cp]
    by (simp add: complete(5) put_tail_sv)
  from c have "child (procs s1 ?p) (child_index tf) = Some cp" by simp
  with copy_frame_child [OF put_regs_frame [OF complete(2)], of ?p]
    pdir_step_fields [OF put_memop_Inr [OF complete(3)], of ?p]
    pdir_step_fields [OF do_perm_Inr [OF complete(4)], of ?p]
  have "child (procs s' ?p) (child_index tf) = Some cp"
    by (simp add: complete(5) put_tail_child)
  moreover from sv' sv2 l1 regs_len_bounds(2) [OF assms(4), of cmd]
  have "length (sv (procs s' cp)) = unat (sizeof_procstate K)"
    by simp
  moreover from sv' sv2
  have "take (unat ?n) (sv (procs s' cp)) = sv_force K (ubytes s ?a ?n)"
    by simp
  ultimately show ?thesis by blast
qed


lemma ld16_take: "off + 1 < n \<Longrightarrow> ld16 off (take n img) = ld16 off img"
  by (simp add: ld16_def)

lemma ld32_take: "off + 3 < n \<Longrightarrow> ld32 off (take n img) = ld32 off img"
  by (simp add: ld32_def)

text \<open>
  C7. Let a PUT with REGS return to its caller, having read the register state \<open>X\<close> (the
  bytes of the block at its save-area pointer) into the child \<open>cp\<close> of its slot; let a GET
  with REGS that names the same child, whose save-area is still as the PUT left it,
  return to its caller, having written \<open>Y\<close> to the block at its own save-area pointer.
  Then, over the bytes that both calls move (the integer registers always, the FPU block
  when both calls carry the FPU bit), \<open>Y\<close> is \<open>X\<close> after the forced rewrite:
  \<open>Y\<close> agrees with \<open>X\<close> at every such byte outside the five rewritten fields, its
  \<open>ds\<close>, \<open>es\<close> and \<open>ss\<close> are \<open>CPU_GDT_UDATA | 3\<close>, its \<open>cs\<close> is \<open>CPU_GDT_UCODE | 3\<close>,
  and its \<open>eflags\<close> are those of \<open>X\<close> masked with \<open>FL_USER\<close>, with \<open>FL_IF\<close> set. The layout
  of the save-area is a parameter: the five fields do not overlap and lie before the FPU
  block, and every save-area has \<open>sizeof(procstate)\<close> bytes.
\<close>

theorem put_get_regs_roundtrip:
  assumes "layout_ok K" and "sv_sized K s"
    and "do_put K tf1 cmd1 s = (Trap_return tf1', s1)" and "cmd1 AND SYS_REGS K \<noteq> 0"
    and "child (procs s1 (cpu_proc (cur s))) (child_index tf1) = Some cp"
    and "child (procs t (cpu_proc (cur t))) (child_index tf2) = Some cp"
    and "sv (procs t cp) = sv (procs s1 cp)"
    and "do_get K tf2 cmd2 t = (Trap_return tf2', t')" and "cmd2 AND SYS_REGS K \<noteq> 0"
  shows "let X = ubytes s (ebx (regs tf1)) (regs_len K cmd1);
             Y = ubytes t' (ebx (regs tf2)) (regs_len K cmd2);
             n = min (unat (regs_len K cmd1)) (unat (regs_len K cmd2))
         in take n Y = take n (sv_force K X)
            \<and> (\<forall>i < n. i \<notin> set (rewritten K) \<longrightarrow> Y ! i = X ! i)
            \<and> ld16 (off_ds K) Y = CPU_GDT_UDATA K OR 3
            \<and> ld16 (off_es K) Y = CPU_GDT_UDATA K OR 3
            \<and> ld16 (off_cs K) Y = CPU_GDT_UCODE K OR 3
            \<and> ld16 (off_ss K) Y = CPU_GDT_UDATA K OR 3
            \<and> ld32 (off_eflags K) Y = (ld32 (off_eflags K) X AND FL_USER K) OR FL_IF K"
proof -
  let ?n1 = "regs_len K cmd1" and ?n2 = "regs_len K cmd2"
  let ?X = "ubytes s (ebx (regs tf1)) ?n1" and ?Y = "ubytes t' (ebx (regs tf2)) ?n2"
  let ?n = "min (unat ?n1) (unat ?n2)"
  from do_put_regs_result [OF assms(3,4,2,1)] assms(5)
  have l: "length (sv (procs s1 cp)) = unat (sizeof_procstate K)"
    and p: "take (unat ?n1) (sv (procs s1 cp)) = sv_force K ?X"
    by auto
  from l assms(7) regs_len_bounds(2) [OF assms(1), of cmd2]
  have "unat ?n2 \<le> length (sv (procs t cp))" by simp
  from do_get_regs_result [OF assms(8,9,6) this] assms(7)
  have y: "?Y = take (unat ?n2) (sv (procs s1 cp))" by simp
  have "take ?n ?Y = take ?n (take (unat ?n1) (sv (procs s1 cp)))"
    by (simp add: y min.absorb4 min.absorb3 min_def)
  with p have Y: "take ?n ?Y = take ?n (sv_force K ?X)" by simp
  have x: "unat (offsetof_fx K) \<le> length ?X"
    using regs_len_bounds(1) [OF assms(1), of cmd1] by simp
  from regs_len_bounds(1) [OF assms(1), of cmd1] regs_len_bounds(1) [OF assms(1), of cmd2]
  have f: "unat (offsetof_fx K) \<le> ?n" by simp
  from layout_okD [OF assms(1), of "replicate ?n (0::u8)"] f
  have b: "\<forall>i\<in>set (rewritten K). i < ?n" by simp
  then have o: "off_ds K + 1 < ?n" "off_es K + 1 < ?n" "off_cs K + 1 < ?n"
    "off_ss K + 1 < ?n" "off_eflags K + 3 < ?n"
    by (simp_all add: rewritten_def)
  have nth: "?Y ! i = sv_force K ?X ! i" if "i < ?n" for i
  proof -
    from that have "?Y ! i = take ?n ?Y ! i" "sv_force K ?X ! i = take ?n (sv_force K ?X) ! i"
      by simp_all
    with Y show ?thesis by simp
  qed
  have 1: "?Y ! i = ?X ! i" if "i < ?n" "i \<notin> set (rewritten K)" for i
    using that nth [of i] by (simp add: sv_force_other [OF assms(1) x])
  have 2: "ld16 off ?Y = ld16 off (sv_force K ?X)" if "off + 1 < ?n" for off
    using that by (intro ld16_cong nth) simp
  have 3: "ld32 off ?Y = ld32 off (sv_force K ?X)" if "off + 3 < ?n" for off
    using that by (intro ld32_cong nth) simp
  from Y 1 o show ?thesis
    unfolding Let_def
    by (simp add: 2 3 sv_force_selectors [OF assms(1) x] sv_force_eflags [OF assms(1) x])
qed

lemma get_child_stopped:
  assumes "state (procs s (cpu_proc (cur s))) = PROC_RUN"
    and "runcpu (procs s (cpu_proc (cur s))) = Some (cpu_id (cur s))"
    and "child (procs s (cpu_proc (cur s))) (child_index tf) = Some cp"
    and "state (procs s cp) = PROC_STOP"
  shows "get_child tf s
           = Inr (cp, spinlock_release (cpu_proc (cur s)) (spinlock_acquire (cpu_proc (cur s)) s))"
  using assms
  by (auto simp: get_child_def Let_def spinlock_acquire_def)

lemma cur_put_regs_done [simp]: "cur (put_regs_done K tf cmd cp s) = cur s"
  by (simp add: put_regs_done_def Let_def kstore_def)

lemma umem_put_regs_done [simp]: "umem (put_regs_done K tf cmd cp s) = umem s"
  by (simp add: put_regs_done_def Let_def kstore_def)

lemma ex_state_put_eq:
  "ex_state_put = put_regs_done ex_consts (ex_tf 0x1001 0x40000000 7 0) 0x1001 2
                    (spinlock_release 1 (spinlock_acquire 1 ex_state))"
  by (simp add: ex_state_put_def ex_put_regs)

lemma ex_after_put:
  shows "cur ex_state_put = cur ex_state" and "umem ex_state_put = ex_umem"
    and "state (procs ex_state_put 1) = PROC_RUN" and "runcpu (procs ex_state_put 1) = Some 0"
    and "child (procs ex_state_put 1) 7 = Some 2" and "state (procs ex_state_put 2) = PROC_STOP"
proof -
  let ?s0 = "spinlock_release 1 (spinlock_acquire 1 ex_state)"
  have "ctl (procs ex_state_put q) = ctl (procs ?s0 q)" for q
    using put_regs_done_frame [of ?s0 ex_consts "ex_tf 0x1001 0x40000000 7 0" "0x1001" 2]
    by (simp add: copy_frame_def ex_state_put_eq)
  from ctl_eq_fields [OF this]
  show "state (procs ex_state_put 1) = PROC_RUN" and "runcpu (procs ex_state_put 1) = Some 0"
    and "child (procs ex_state_put 1) 7 = Some 2" and "state (procs ex_state_put 2) = PROC_STOP"
    by (simp_all add: spinlock_release_def spinlock_acquire_def ex_state_def ex_proc_def)
  show "cur ex_state_put = cur ex_state" and "umem ex_state_put = ex_umem"
    by (simp_all add: ex_state_put_eq spinlock_release_def spinlock_acquire_def ex_state_def)
qed

lemma ex_get_regs_after_put:
  "fst (do_get ex_consts (ex_tf 0x1002 0x40000000 7 0) 0x1002 ex_state_put)
     = Trap_return (ex_tf 0x1002 0x40000000 7 0)"
proof -
  let ?tf = "ex_tf 0x1002 0x40000000 7 0"
  let ?s1 = "spinlock_release 1 (spinlock_acquire 1 ex_state_put)"
  have c: "cur ex_state_put = \<lparr>cpu_id = 0, cpu_proc = 1, recover = None, recoverdata = None\<rparr>"
    by (simp add: ex_after_put ex_state_def)
  have i: "child_index ?tf = 7" by (simp add: child_index_def)
  have g: "get_child ?tf ex_state_put = Inr (2, ?s1)"
    using get_child_stopped [of ex_state_put ?tf 2] ex_after_put(3-6) c i by simp
  have u: "umem ?s1 = ex_umem" "recover (cur ?s1) = None"
    by (simp_all add: spinlock_release_def spinlock_acquire_def ex_after_put ex_state_def)
  have l: "regs_len ex_consts 0x1002 = 80"
    by (simp add: regs_len_def)
  have a: "all_accessible ?s1 0x40000000 80"
    by (rule ex_all_accessible [OF u(1)]) simp
  have b: "\<not> checkva_bad ex_consts 0x40000000 80"
    by (simp add: checkva_bad_def)
  have "get_regs ex_consts ?tf 0x1002 2 ?s1 = Inr (get_regs_done ex_consts ?tf 0x1002 2 ?s1)"
    using u a b l by (simp add: get_regs_Inr)
  with g show ?thesis
    by (simp add: do_get_def get_memop_def do_perm_def)
qed

theorem put_get_regs_roundtrip_witness:
  "ld16 44 (ubytes (snd (do_get ex_consts (ex_tf 0x1002 0x40000000 7 0) 0x1002 ex_state_put))
              0x40000000 80) = 0x23
   \<and> ld16 60 (ubytes (snd (do_get ex_consts (ex_tf 0x1002 0x40000000 7 0) 0x1002 ex_state_put))
              0x40000000 80) = 0x1B
   \<and> ubytes (snd (do_get ex_consts (ex_tf 0x1002 0x40000000 7 0) 0x1002 ex_state_put))
              0x40000000 80 ! 0
       = ubytes ex_state 0x40000000 80 ! 0"
proof -
  let ?tf1 = "ex_tf 0x1001 0x40000000 7 0" and ?tf2 = "ex_tf 0x1002 0x40000000 7 0"
  let ?r = "do_get ex_consts ?tf2 0x1002 ex_state_put"
  have k: "layout_ok ex_consts"
    by (simp add: layout_ok_def rewritten_def)
  have z: "sv_sized ex_consts ex_state"
    by (simp add: sv_sized_def ex_state_def ex_proc_def)
  have p: "do_put ex_consts ?tf1 0x1001 ex_state = (Trap_return ?tf1, ex_state_put)"
    by (simp add: ex_state_put_def ex_put_regs)
  have g: "?r = (Trap_return ?tf2, snd ?r)"
    using ex_get_regs_after_put by (simp add: prod_eq_iff)
  have c: "child (procs ex_state_put (cpu_proc (cur ex_state))) (child_index ?tf1) = Some 2"
    "child (procs ex_state_put (cpu_proc (cur ex_state_put))) (child_index ?tf2) = Some 2"
    using ex_after_put(5) by (simp_all add: ex_after_put(1) child_index_def ex_state_def)
  have m: "0x1001 AND SYS_REGS ex_consts \<noteq> 0" "0x1002 AND SYS_REGS ex_consts \<noteq> 0"
    "regs_len ex_consts 0x1002 = 80" "regs_len ex_consts 0x1001 = 80"
    by (simp_all add: regs_len_def)
  let ?X = "ubytes ex_state 0x40000000 80" and ?Y = "ubytes (snd ?r) 0x40000000 80"
  have e: "ebx (regs ?tf1) = 0x40000000" "ebx (regs ?tf2) = 0x40000000"
    by simp_all
  note t = put_get_regs_roundtrip [OF k z p m(1) c(1) c(2) refl g m(2),
      unfolded Let_def m(3,4) e min.idem]
  from t have "ld16 (off_ds ex_consts) ?Y = CPU_GDT_UDATA ex_consts OR 3"
    and "ld16 (off_cs ex_consts) ?Y = CPU_GDT_UCODE ex_consts OR 3"
    and a: "\<forall>i < unat (80 :: u32). i \<notin> set (rewritten ex_consts) \<longrightarrow> ?Y ! i = ?X ! i"
    by blast+
  moreover from a have "?Y ! 0 = ?X ! 0"
    by (simp add: rewritten_def)
  ultimately show ?thesis by simp
qed


subsection \<open>The second copy of the REGS steps\<close>

lemma put_regs_second:
  assumes "cmd AND SYS_REGS K \<noteq> 0"
    and "usercopy K tf False (K_sv cp) (ebx (regs tf)) (regs_len K cmd) t = Inr t1"
  shows "recover (cur t1) = None
         \<and> (\<exists>t2. user_access K False (K_sv cp) (ebx (regs tf)) (regs_len K cmd) t1 = Inr t2
               \<and> recover (cur t2) = None
               \<and> events t2 = events t1 @ [Ev_user False (ebx (regs tf)) (regs_len K cmd) None]
               \<and> sv (procs t2 cp)
                   = ubytes t1 (ebx (regs tf)) (regs_len K cmd)
                       @ drop (unat (regs_len K cmd)) (sv (procs t1 cp))
               \<and> put_regs K tf cmd cp t
                   = Inr (kstore (K_sv cp) (sv_force K (sv (procs t2 cp))) t2))"
proof -
  let ?a = "ebx (regs tf)" and ?n = "regs_len K cmd"
  let ?t2 = "moved False (K_sv cp) ?a ?n None t1"
  from assms(2) have u: "recover (cur t) = None" "all_accessible t ?a ?n"
    "t1 = moved False (K_sv cp) ?a ?n (Some Sysrecover) t"
    by (simp_all add: usercopy_Inr)
  then have r: "recover (cur t1) = None" and a: "all_accessible t1 ?a ?n"
    by simp_all
  from user_access_ok [OF a, of K False "K_sv cp"] r
  have 1: "user_access K False (K_sv cp) ?a ?n t1 = Inr ?t2" by simp
  have 2: "sv (procs ?t2 cp) = ubytes t1 ?a ?n @ drop (unat ?n) (sv (procs t1 cp))"
    by (simp add: moved_def kstore_def kload_def)
  from assms 1 have 3: "put_regs K tf cmd cp t
                          = Inr (kstore (K_sv cp) (sv_force K (sv (procs ?t2 cp))) ?t2)"
    by (simp add: put_regs_def kload_def)
  from r 1 2 3 show ?thesis by simp
qed

lemma get_regs_second:
  assumes "cmd AND SYS_REGS K \<noteq> 0"
    and "usercopy K tf True (K_sv cp) (ebx (regs tf)) (regs_len K cmd) t = Inr t1"
  shows "recover (cur t1) = None
         \<and> (\<exists>t2. user_access K True (K_sv cp) (ebx (regs tf)) (regs_len K cmd) t1 = Inr t2
               \<and> recover (cur t2) = None
               \<and> events t2 = events t1 @ [Ev_user True (ebx (regs tf)) (regs_len K cmd) None]
               \<and> umem t2
                   = (umem t1)(uaddrs (ebx (regs tf)) (regs_len K cmd) [\<mapsto>] sv (procs t1 cp))
               \<and> get_regs K tf cmd cp t = Inr t2)"
proof -
  let ?a = "ebx (regs tf)" and ?n = "regs_len K cmd"
  let ?t2 = "moved True (K_sv cp) ?a ?n None t1"
  from assms(2) have u: "recover (cur t) = None" "all_accessible t ?a ?n"
    "t1 = moved True (K_sv cp) ?a ?n (Some Sysrecover) t"
    by (simp_all add: usercopy_Inr)
  then have r: "recover (cur t1) = None" and a: "all_accessible t1 ?a ?n"
    by (simp_all add: all_accessible_moved_out)
  from user_access_ok [OF a, of K True "K_sv cp"] r
  have 1: "user_access K True (K_sv cp) ?a ?n t1 = Inr ?t2" by simp
  have 2: "umem ?t2 = (umem t1)(uaddrs ?a ?n [\<mapsto>] sv (procs t1 cp))"
    by (simp add: moved_def kload_def)
  from assms 1 have 3: "get_regs K tf cmd cp t = Inr ?t2"
    by (simp add: get_regs_def)
  from r 1 2 3 show ?thesis by simp
qed

lemma user_access_unguarded:
  assumes "recover (cur u) = None" and "\<not> all_accessible u uva sz"
  shows "\<exists>u'. user_access K copyout k uva sz u = Inl (Panic ''unhandled trap in kernel'', u')"
proof -
  from memmove_user_fault [OF assms(2), of copyout k]
  obtain u1 a where m: "memmove_user copyout k uva sz u = (u1, Some a)"
    by (cases "memmove_user copyout k uva sz u") auto
  from memmove_user_cur [OF m] assms(1) have "recover (cur u1) = None" by simp
  with m show ?thesis
    by (simp add: user_access_def trap_pgflt_def)
qed

lemma umem_pdir_step: "pdir_step c s s' \<Longrightarrow> umem s' = umem s"
  by (simp add: pdir_step_def)

text \<open>
  C10. Let the REGS bit be set. In the REGS step of PUT, once \<^verbatim>\<open>usercopy\<close> has come
  back, in a state \<open>t1\<close>, the recovery slot is empty, and the step goes on to the
  \<^verbatim>\<open>memcpy\<close> from the user pointer: a second access to the same user block, made in
  \<open>t1\<close> with the slot empty, which moves the bytes of the block into the child's
  save-area; the step ends with the forced rewrite of what this second access has left
  there. In the REGS step of GET it is the same, the second access writing the child's
  save-area to the user block once more. An access to user memory that faults while the
  slot is empty is not recovered: the kernel stops, and no trap is reflected. A PUT or
  GET call that returns to its caller has gone through these accesses: its first two
  events are the guarded access and the unguarded one, the save-area of the child after
  a PUT is the forced rewrite of what the second access has read, and the user memory
  after a GET is what the second access has written.
\<close>

theorem regs_second_access_unguarded:
  assumes "cmd AND SYS_REGS K \<noteq> 0"
  shows "(\<forall>t1. usercopy K tf False (K_sv cp) (ebx (regs tf)) (regs_len K cmd) t = Inr t1 \<longrightarrow>
            recover (cur t1) = None
            \<and> (\<exists>t2. user_access K False (K_sv cp) (ebx (regs tf)) (regs_len K cmd) t1 = Inr t2
                  \<and> recover (cur t2) = None
                  \<and> events t2 = events t1 @ [Ev_user False (ebx (regs tf)) (regs_len K cmd) None]
                  \<and> sv (procs t2 cp)
                      = ubytes t1 (ebx (regs tf)) (regs_len K cmd)
                          @ drop (unat (regs_len K cmd)) (sv (procs t1 cp))
                  \<and> put_regs K tf cmd cp t
                      = Inr (kstore (K_sv cp) (sv_force K (sv (procs t2 cp))) t2)))
       \<and> (\<forall>t1. usercopy K tf True (K_sv cp) (ebx (regs tf)) (regs_len K cmd) t = Inr t1 \<longrightarrow>
            recover (cur t1) = None
            \<and> (\<exists>t2. user_access K True (K_sv cp) (ebx (regs tf)) (regs_len K cmd) t1 = Inr t2
                  \<and> recover (cur t2) = None
                  \<and> events t2 = events t1 @ [Ev_user True (ebx (regs tf)) (regs_len K cmd) None]
                  \<and> umem t2
                      = (umem t1)(uaddrs (ebx (regs tf)) (regs_len K cmd) [\<mapsto>] sv (procs t1 cp))
                  \<and> get_regs K tf cmd cp t = Inr t2))
       \<and> (\<forall>u copyout.
            recover (cur u) = None \<and> \<not> all_accessible u (ebx (regs tf)) (regs_len K cmd) \<longrightarrow>
            (\<exists>u'. user_access K copyout (K_sv cp) (ebx (regs tf)) (regs_len K cmd) u
                    = Inl (Panic ''unhandled trap in kernel'', u')))
       \<and> (\<forall>tf' s'. do_put K tf cmd s = (Trap_return tf', s') \<longrightarrow>
            (\<exists>c t0 t1 t2.
                put_child K tf s = Inr (c, t0)
                \<and> usercopy K tf False (K_sv c) (ebx (regs tf)) (regs_len K cmd) t0 = Inr t1
                \<and> recover (cur t1) = None
                \<and> user_access K False (K_sv c) (ebx (regs tf)) (regs_len K cmd) t1 = Inr t2
                \<and> sv (procs s' c)
                    = sv_force K (ubytes t1 (ebx (regs tf)) (regs_len K cmd)
                                   @ drop (unat (regs_len K cmd)) (sv (procs t1 c)))
                \<and> take 2 (drop (length (events s)) (events s'))
                    = [Ev_user False (ebx (regs tf)) (regs_len K cmd) (Some Sysrecover),
                       Ev_user False (ebx (regs tf)) (regs_len K cmd) None]))
       \<and> (\<forall>tf' s'. do_get K tf cmd s = (Trap_return tf', s') \<longrightarrow>
            (\<exists>c t0 t1 t2.
                get_child tf s = Inr (c, t0)
                \<and> usercopy K tf True (K_sv c) (ebx (regs tf)) (regs_len K cmd) t0 = Inr t1
                \<and> recover (cur t1) = None
                \<and> user_access K True (K_sv c) (ebx (regs tf)) (regs_len K cmd) t1 = Inr t2
                \<and> umem s'
                    = (umem t1)(uaddrs (ebx (regs tf)) (regs_len K cmd) [\<mapsto>] sv (procs t1 c))
                \<and> take 2 (drop (length (events s)) (events s'))
                    = [Ev_user True (ebx (regs tf)) (regs_len K cmd) (Some Sysrecover),
                       Ev_user True (ebx (regs tf)) (regs_len K cmd) None]))"
proof -
  let ?a = "ebx (regs tf)" and ?n = "regs_len K cmd"
  have P: "\<exists>c t0 t1 t2.
                put_child K tf s = Inr (c, t0)
                \<and> usercopy K tf False (K_sv c) ?a ?n t0 = Inr t1
                \<and> recover (cur t1) = None
                \<and> user_access K False (K_sv c) ?a ?n t1 = Inr t2
                \<and> sv (procs s' c) = sv_force K (ubytes t1 ?a ?n @ drop (unat ?n) (sv (procs t1 c)))
                \<and> take 2 (drop (length (events s)) (events s'))
                    = [Ev_user False ?a ?n (Some Sysrecover), Ev_user False ?a ?n None]"
    if "do_put K tf cmd s = (Trap_return tf', s')" for tf' s'
    using that
  proof (cases rule: do_put_cases)
    case head
    from put_child_Inl [OF head] show ?thesis by (simp add: returns_normally_def)
  next
    case (regs cp s1)
    from put_regs_Inl [OF regs(2)] show ?thesis by (simp add: returns_normally_def)
  next
    case (memop cp s1 s2)
    from memop_Inl(1) [OF memop(3)] show ?thesis by simp
  next
    case (perm cp s1 s2 s3)
    from do_perm_Inl [OF perm(4)] show ?thesis by (simp add: returns_normally_def)
  next
    case (complete c s1 s2 s3 s4)
    let ?t1 = "moved False (K_sv c) ?a ?n (Some Sysrecover) s1"
    from complete(2) assms have ok: "\<not> checkva_bad K ?a ?n" "recover (cur s1) = None"
      "all_accessible s1 ?a ?n" and s2: "s2 = put_regs_done K tf cmd c s1"
      by (simp_all add: put_regs_Inr)
    from usercopy_ok [OF ok, of tf False "K_sv c"]
    have u: "usercopy K tf False (K_sv c) ?a ?n s1 = Inr ?t1" .
    from put_regs_second [OF assms u] obtain t2
      where t2: "recover (cur ?t1) = None" "user_access K False (K_sv c) ?a ?n ?t1 = Inr t2"
        "sv (procs t2 c) = ubytes ?t1 ?a ?n @ drop (unat ?n) (sv (procs ?t1 c))"
        "put_regs K tf cmd c s1 = Inr (kstore (K_sv c) (sv_force K (sv (procs t2 c))) t2)"
      by blast
    from t2(4) complete(2) have "sv (procs s2 c) = sv_force K (sv (procs t2 c))"
      by (simp add: kstore_def)
    moreover have "sv (procs s' c) = sv (procs s2 c)"
      using pdir_step_fields [OF put_memop_Inr [OF complete(3)], of c]
        pdir_step_fields [OF do_perm_Inr [OF complete(4)], of c]
      by (simp add: complete(5) put_tail_sv)
    ultimately have v: "sv (procs s' c)
        = sv_force K (ubytes ?t1 ?a ?n @ drop (unat ?n) (sv (procs ?t1 c)))"
      by (simp add: t2(3))
    from put_child_Inr [OF complete(1)] have 1: "events s1 = events s" by simp
    with s2 have 2: "events s2 = events s
        @ [Ev_user False ?a ?n (Some Sysrecover), Ev_user False ?a ?n None]"
      by (simp add: events_put_regs_done)
    from pdir_step_events [OF put_memop_Inr [OF complete(3)]]
      pdir_step_events [OF do_perm_Inr [OF complete(4)]]
      put_tail_events [of K cmd c s4] complete(5)
    obtain later where "events s' = events s2 @ later" by auto
    with 2 have e: "take 2 (drop (length (events s)) (events s'))
        = [Ev_user False ?a ?n (Some Sysrecover), Ev_user False ?a ?n None]"
      by (intro take2_events) simp
    from complete(1) u t2(1,2) v e show ?thesis by blast
  qed
  have G: "\<exists>c t0 t1 t2.
                get_child tf s = Inr (c, t0)
                \<and> usercopy K tf True (K_sv c) ?a ?n t0 = Inr t1
                \<and> recover (cur t1) = None
                \<and> user_access K True (K_sv c) ?a ?n t1 = Inr t2
                \<and> umem s' = (umem t1)(uaddrs ?a ?n [\<mapsto>] sv (procs t1 c))
                \<and> take 2 (drop (length (events s)) (events s'))
                    = [Ev_user True ?a ?n (Some Sysrecover), Ev_user True ?a ?n None]"
    if "do_get K tf cmd s = (Trap_return tf', s')" for tf' s'
    using that
  proof (cases rule: do_get_cases)
    case head
    from get_child_Inl [OF head] show ?thesis by (simp add: returns_normally_def)
  next
    case (regs cp s1)
    from get_regs_Inl [OF regs(2)] show ?thesis by (simp add: returns_normally_def)
  next
    case (memop cp s1 s2)
    from memop_Inl(2) [OF memop(3)] show ?thesis by simp
  next
    case (perm cp s1 s2 s3)
    from do_perm_Inl [OF perm(4)] show ?thesis by (simp add: returns_normally_def)
  next
    case (snap cp s1 s2 s3)
    then show ?thesis by simp
  next
    case (complete c s1 s2 s3)
    let ?t1 = "moved True (K_sv c) ?a ?n (Some Sysrecover) s1"
    from complete(2) assms have ok: "\<not> checkva_bad K ?a ?n" "recover (cur s1) = None"
      "all_accessible s1 ?a ?n" and s2: "s2 = get_regs_done K tf cmd c s1"
      by (simp_all add: get_regs_Inr)
    from usercopy_ok [OF ok, of tf True "K_sv c"]
    have u: "usercopy K tf True (K_sv c) ?a ?n s1 = Inr ?t1" .
    from get_regs_second [OF assms u] obtain t2
      where t2: "recover (cur ?t1) = None" "user_access K True (K_sv c) ?a ?n ?t1 = Inr t2"
        "umem t2 = (umem ?t1)(uaddrs ?a ?n [\<mapsto>] sv (procs ?t1 c))"
        "get_regs K tf cmd c s1 = Inr t2"
      by blast
    from t2(4) complete(2) have "s2 = t2" by simp
    moreover from umem_pdir_step [OF get_memop_Inr [OF complete(3)]]
      umem_pdir_step [OF do_perm_Inr [OF complete(4)]]
    have "umem s' = umem s2" by simp
    ultimately have v: "umem s' = (umem ?t1)(uaddrs ?a ?n [\<mapsto>] sv (procs ?t1 c))"
      by (simp add: t2(3))
    from get_child_Inr [OF complete(1)] have 1: "events s1 = events s" by simp
    with s2 have 2: "events s2 = events s
        @ [Ev_user True ?a ?n (Some Sysrecover), Ev_user True ?a ?n None]"
      by (simp add: events_get_regs_done)
    from pdir_step_events [OF get_memop_Inr [OF complete(3)]]
      pdir_step_events [OF do_perm_Inr [OF complete(4)]]
    obtain later where "events s' = events s2 @ later" by auto
    with 2 have e: "take 2 (drop (length (events s)) (events s'))
        = [Ev_user True ?a ?n (Some Sysrecover), Ev_user True ?a ?n None]"
      by (intro take2_events) simp
    from complete(1) u t2(1,2) v e show ?thesis by blast
  qed
  show ?thesis
  proof (intro conjI allI impI)
    fix t1
    assume "usercopy K tf False (K_sv cp) ?a ?n t = Inr t1"
    from put_regs_second [OF assms this]
    show "recover (cur t1) = None"
      and "\<exists>t2. user_access K False (K_sv cp) ?a ?n t1 = Inr t2
                  \<and> recover (cur t2) = None
                  \<and> events t2 = events t1 @ [Ev_user False ?a ?n None]
                  \<and> sv (procs t2 cp) = ubytes t1 ?a ?n @ drop (unat ?n) (sv (procs t1 cp))
                  \<and> put_regs K tf cmd cp t
                      = Inr (kstore (K_sv cp) (sv_force K (sv (procs t2 cp))) t2)"
      by simp_all
  next
    fix t1
    assume "usercopy K tf True (K_sv cp) ?a ?n t = Inr t1"
    from get_regs_second [OF assms this]
    show "recover (cur t1) = None"
      and "\<exists>t2. user_access K True (K_sv cp) ?a ?n t1 = Inr t2
                  \<and> recover (cur t2) = None
                  \<and> events t2 = events t1 @ [Ev_user True ?a ?n None]
                  \<and> umem t2 = (umem t1)(uaddrs ?a ?n [\<mapsto>] sv (procs t1 cp))
                  \<and> get_regs K tf cmd cp t = Inr t2"
      by simp_all
  next
    fix u copyout
    assume "recover (cur u) = None \<and> \<not> all_accessible u ?a ?n"
    then show "\<exists>u'. user_access K copyout (K_sv cp) ?a ?n u
                    = Inl (Panic ''unhandled trap in kernel'', u')"
      by (intro user_access_unguarded) simp_all
  next
    fix tf' s'
    assume "do_put K tf cmd s = (Trap_return tf', s')"
    then show "\<exists>c t0 t1 t2.
                put_child K tf s = Inr (c, t0)
                \<and> usercopy K tf False (K_sv c) ?a ?n t0 = Inr t1
                \<and> recover (cur t1) = None
                \<and> user_access K False (K_sv c) ?a ?n t1 = Inr t2
                \<and> sv (procs s' c) = sv_force K (ubytes t1 ?a ?n @ drop (unat ?n) (sv (procs t1 c)))
                \<and> take 2 (drop (length (events s)) (events s'))
                    = [Ev_user False ?a ?n (Some Sysrecover), Ev_user False ?a ?n None]"
      by (rule P)
  next
    fix tf' s'
    assume "do_get K tf cmd s = (Trap_return tf', s')"
    then show "\<exists>c t0 t1 t2.
                get_child tf s = Inr (c, t0)
                \<and> usercopy K tf True (K_sv c) ?a ?n t0 = Inr t1
                \<and> recover (cur t1) = None
                \<and> user_access K True (K_sv c) ?a ?n t1 = Inr t2
                \<and> umem s' = (umem t1)(uaddrs ?a ?n [\<mapsto>] sv (procs t1 c))
                \<and> take 2 (drop (length (events s)) (events s'))
                    = [Ev_user True ?a ?n (Some Sysrecover), Ev_user True ?a ?n None]"
      by (rule G)
  qed
qed

lemma ex_get_regs:
  "do_get ex_consts (ex_tf 0x1002 0x40000000 7 0) 0x1002 ex_state
     = (Trap_return (ex_tf 0x1002 0x40000000 7 0),
        get_regs_done ex_consts (ex_tf 0x1002 0x40000000 7 0) 0x1002 2
          (spinlock_release 1 (spinlock_acquire 1 ex_state)))"
proof -
  let ?s1 = "spinlock_release 1 (spinlock_acquire 1 ex_state)"
  have u: "umem ?s1 = ex_umem" "recover (cur ?s1) = None"
    by (simp_all add: spinlock_release_def spinlock_acquire_def ex_state_def)
  have l: "regs_len ex_consts 0x1002 = 80"
    by (simp add: regs_len_def)
  have a: "all_accessible ?s1 0x40000000 80"
    by (rule ex_all_accessible [OF u(1)]) simp
  have c: "\<not> checkva_bad ex_consts 0x40000000 80"
    by (simp add: checkva_bad_def)
  have "get_regs ex_consts (ex_tf 0x1002 0x40000000 7 0) 0x1002 2 ?s1
          = Inr (get_regs_done ex_consts (ex_tf 0x1002 0x40000000 7 0) 0x1002 2 ?s1)"
    using u a c l by (simp add: get_regs_Inr)
  then show ?thesis
    by (simp add: do_get_def ex_get_child get_memop_def do_perm_def)
qed

theorem regs_second_access_unguarded_witness:
  "take 2 (events (snd (do_put ex_consts (ex_tf 0x1001 0x40000000 7 0) 0x1001 ex_state)))
     = [Ev_user False 0x40000000 80 (Some Sysrecover), Ev_user False 0x40000000 80 None]
   \<and> sv (procs ex_state 2) ! 1 = 0
   \<and> sv (procs (snd (do_put ex_consts (ex_tf 0x1001 0x40000000 7 0) 0x1001 ex_state)) 2) ! 1
       = 101
   \<and> take 2 (events (snd (do_get ex_consts (ex_tf 0x1002 0x40000000 7 0) 0x1002 ex_state)))
       = [Ev_user True 0x40000000 80 (Some Sysrecover), Ev_user True 0x40000000 80 None]
   \<and> umem ex_state 0x40000000 = Some 104
   \<and> the (umem (snd (do_get ex_consts (ex_tf 0x1002 0x40000000 7 0) 0x1002 ex_state))
             0x40000000) = 0"
proof -
  let ?tf = "ex_tf 0x1001 0x40000000 7 0" and ?tg = "ex_tf 0x1002 0x40000000 7 0"
  let ?s0 = "spinlock_release 1 (spinlock_acquire 1 ex_state)"
  let ?r = "do_put ex_consts ?tf 0x1001 ex_state" and ?g = "do_get ex_consts ?tg 0x1002 ex_state"
  have m: "0x1001 AND SYS_REGS ex_consts \<noteq> 0" "0x1002 AND SYS_REGS ex_consts \<noteq> 0"
    by simp_all
  have l: "regs_len ex_consts 0x1001 = 80" "regs_len ex_consts 0x1002 = 80"
    by (simp_all add: regs_len_def)
  have e: "events ex_state = []" "sv (procs ex_state 2) ! 1 = 0"
    "umem ex_state 0x40000000 = Some 104"
    by (simp_all add: ex_state_def ex_proc_def ex_umem_def)
  have k: "layout_ok ex_consts"
    by (simp add: layout_ok_def rewritten_def)
  have d: "?r = (Trap_return ?tf, snd ?r)" "?g = (Trap_return ?tg, snd ?g)"
    by (simp_all add: ex_put_regs ex_get_regs)
  from regs_second_access_unguarded [OF m(1), where tf = ?tf and s = ex_state] d(1)
  obtain c t0 t1 t2 where f:
    "put_child ex_consts ?tf ex_state = Inr (c, t0)
     \<and> usercopy ex_consts ?tf False (K_sv c) (ebx (regs ?tf)) (regs_len ex_consts 0x1001) t0 = Inr t1
     \<and> recover (cur t1) = None
     \<and> user_access ex_consts False (K_sv c) (ebx (regs ?tf)) (regs_len ex_consts 0x1001) t1 = Inr t2
     \<and> sv (procs (snd ?r) c)
         = sv_force ex_consts (ubytes t1 (ebx (regs ?tf)) (regs_len ex_consts 0x1001)
             @ drop (unat (regs_len ex_consts 0x1001)) (sv (procs t1 c)))
     \<and> take 2 (drop (length (events ex_state)) (events (snd ?r)))
         = [Ev_user False (ebx (regs ?tf)) (regs_len ex_consts 0x1001) (Some Sysrecover),
            Ev_user False (ebx (regs ?tf)) (regs_len ex_consts 0x1001) None]"
    by blast
  from f have c: "c = 2" "t0 = ?s0"
    by (simp_all add: ex_put_child)
  from f have t1: "t1 = moved False (K_sv 2) 0x40000000 80 (Some Sysrecover) ?s0"
    by (simp add: c l usercopy_Inr)
  let ?img = "ubytes t1 0x40000000 80 @ drop 80 (sv (procs t1 2))"
  have um: "umem t1 = ex_umem"
    unfolding t1 by (simp add: spinlock_release_def spinlock_acquire_def ex_state_def)
  have u: "ubytes t1 0x40000000 80 ! 1 = 101"
    by (simp add: ubytes_def uaddrs_def um ex_umem_def)
  have "sv_force ex_consts ?img ! 1 = ?img ! 1"
    by (rule sv_force_other [OF k]) (simp_all add: rewritten_def)
  with u have "sv_force ex_consts ?img ! 1 = 101"
    by (simp add: nth_append)
  with f have 1: "sv (procs (snd ?r) 2) ! 1 = 101"
    by (simp add: c l)
  from f have 2: "take 2 (events (snd ?r))
      = [Ev_user False 0x40000000 80 (Some Sysrecover), Ev_user False 0x40000000 80 None]"
    by (simp add: l e(1))
  from regs_second_access_unguarded [OF m(2), where tf = ?tg and s = ex_state] d(2)
  obtain c' t0' t1' t2' where h:
    "get_child ?tg ex_state = Inr (c', t0')
     \<and> usercopy ex_consts ?tg True (K_sv c') (ebx (regs ?tg)) (regs_len ex_consts 0x1002) t0'
         = Inr t1'
     \<and> recover (cur t1') = None
     \<and> user_access ex_consts True (K_sv c') (ebx (regs ?tg)) (regs_len ex_consts 0x1002) t1'
         = Inr t2'
     \<and> umem (snd ?g)
         = (umem t1')(uaddrs (ebx (regs ?tg)) (regs_len ex_consts 0x1002) [\<mapsto>] sv (procs t1' c'))
     \<and> take 2 (drop (length (events ex_state)) (events (snd ?g)))
         = [Ev_user True (ebx (regs ?tg)) (regs_len ex_consts 0x1002) (Some Sysrecover),
            Ev_user True (ebx (regs ?tg)) (regs_len ex_consts 0x1002) None]"
    by blast
  from h have c': "c' = 2" "t0' = ?s0"
    by (simp_all add: ex_get_child)
  from h have t1': "t1' = moved True (K_sv 2) 0x40000000 80 (Some Sysrecover) ?s0"
    by (simp add: c' l usercopy_Inr)
  have sv': "sv (procs t1' 2) = replicate 96 0"
    unfolding t1'
    by (simp add: spinlock_release_def spinlock_acquire_def ex_state_def ex_proc_def)
  from h have v: "umem (snd ?g) = (umem t1')(uaddrs 0x40000000 80 [\<mapsto>] replicate 96 0)"
    by (simp add: c' l sv')
  have "map (\<lambda>x. the (umem (snd ?g) x)) (uaddrs 0x40000000 80) = take 80 (replicate 96 0)"
    unfolding v
    using map_upds_lookup [OF distinct_uaddrs, of "0x40000000" 80 "replicate 96 (0::u8)" "umem t1'"]
    by simp
  then have "map (\<lambda>x. the (umem (snd ?g) x)) (uaddrs 0x40000000 80) ! 0
               = take 80 (replicate 96 (0::u8)) ! 0"
    by simp
  then have 3: "the (umem (snd ?g) 0x40000000) = 0"
    by (simp add: uaddrs_def)
  from h have 4: "take 2 (events (snd ?g))
      = [Ev_user True 0x40000000 80 (Some Sysrecover), Ev_user True 0x40000000 80 None]"
    by (simp add: l e(1))
  from 1 2 3 4 e(2,3) show ?thesis
    by simp
qed

end
